theory Spec2Isabelle
  imports Main "HOL-Library.Word"
begin

section \<open>Pointers, faults and the log of memory actions\<close>

text \<open>
  A pointer is \<open>None\<close> (the C++ \<open>nullptr\<close>) or the address of a heap cell. The
  operations are run by one thread at a time without interference by other threads; what
  other threads have left behind (hazard records they own, pointers they have published)
  is part of the state the operation starts from.

  Three ways of not returning are values of \<open>fault\<close>: \<open>std::abort()\<close> in
  \<open>acquire_hazard_record\<close>, the dereference of a pointer that is null or not allocated
  (undefined behaviour in C++), and a retry loop that has used up the iterations it was given.
\<close>

type_synonym addr = nat
type_synonym ptr = "addr option"
type_synonym tid = nat

datatype fault = Abort | Bad_deref | Out_of_fuel

text \<open>
  The log records, in program order, the actions of the lock-free operations that the
  reclamation protocol is about: publishing and clearing a hazard pointer, reading
  \<open>next\<close> or \<open>value\<close> through a node pointer, the compare-and-swap on
  \<open>head_\<close> (expected value, new value, success), handing a node to the retired list,
  and \<open>delete\<close>.
\<close>

datatype event =
    Hp_set ptr
  | Hp_clear
  | Read_next addr
  | Read_value addr
  | Cas_head ptr ptr bool
  | Retire addr
  | Delete addr

section \<open>cv\_nospurious.h\<close>

text \<open>
  Data members are named as in the source, without the trailing underscore.
  \<open>seq\<close> is a \<open>std::atomic<std::size_t>\<close>: an unsigned machine integer of the
  platform's width \<open>'w\<close>, on which \<open>fetch_add\<close> wraps. The underlying
  \<open>std::condition_variable cv\<close> is kept as the log of the wake-ups requested from it,
  each with the value \<open>seq\<close> had when the request was made.
\<close>

datatype wake = Wake_one | Wake_all

record (overloaded) 'w CVNoSpurious =
  seq :: "'w word"
  cv :: "(wake \<times> 'w word) list"

definition CVNoSpurious_init :: "'w::len CVNoSpurious" where
  "CVNoSpurious_init = \<lparr>seq = 0, cv = []\<rparr>"

definition cv_notify :: "wake \<Rightarrow> 'w::len CVNoSpurious \<Rightarrow> 'w CVNoSpurious" where
  "cv_notify k c = c\<lparr>cv := cv c @ [(k, seq c)]\<rparr>"

definition notify_one :: "'w::len CVNoSpurious \<Rightarrow> 'w CVNoSpurious" where
  "notify_one c = cv_notify Wake_one (c\<lparr>seq := seq c + 1\<rparr>)"

definition notify_all :: "'w::len CVNoSpurious \<Rightarrow> 'w CVNoSpurious" where
  "notify_all c = cv_notify Wake_all (c\<lparr>seq := seq c + 1\<rparr>)"

text \<open>
  \<open>wait(lock)\<close> samples \<open>seq\<close> and calls \<open>cv.wait(lock, pred)\<close>, which is
  \<open>while (!pred()) wait(lock)\<close>. The waiter is run against a schedule: one entry for each
  evaluation of the predicate, listing the notifications other threads issued since the
  previous evaluation (since the sample, for the first entry). An empty entry before a
  re-evaluation is a spurious wake-up. When the schedule is used up and the predicate
  has never held, the waiter is still blocked: the result is \<open>None\<close>.
\<close>

fun others :: "wake list \<Rightarrow> 'w::len CVNoSpurious \<Rightarrow> 'w CVNoSpurious" where
  "others [] c = c"
| "others (Wake_one # ks) c = others ks (notify_one c)"
| "others (Wake_all # ks) c = others ks (notify_all c)"

fun cv_wait_pred ::
  "'w word \<Rightarrow> wake list list \<Rightarrow> 'w::len CVNoSpurious \<Rightarrow> ('w CVNoSpurious \<times> wake list list) option"
where
  "cv_wait_pred my_seq [] c = None"
| "cv_wait_pred my_seq (ks # sched) c =
     (let c' = others ks c
      in if seq c' \<noteq> my_seq then Some (c', sched) else cv_wait_pred my_seq sched c')"

definition wait ::
  "wake list list \<Rightarrow> 'w::len CVNoSpurious \<Rightarrow> ('w CVNoSpurious \<times> wake list list) option"
where
  "wait sched c = (let my_seq = seq c in cv_wait_pred my_seq sched c)"

section \<open>hazard\_pointers.h\<close>

definition MAX_THREADS :: nat where "MAX_THREADS = 64"
definition HAZARD_SLOTS_PER_THREAD :: nat where "HAZARD_SLOTS_PER_THREAD = 2"
definition MAX_HAZARD_POINTERS :: nat where
  "MAX_HAZARD_POINTERS = MAX_THREADS * HAZARD_SLOTS_PER_THREAD"

text \<open>\<open>owner = None\<close> is the default-constructed \<open>std::thread::id\<close>: the record is free.\<close>

record HazardRecord =
  owner :: "tid option"
  ptr :: ptr

definition HazardRecord_init :: HazardRecord where
  "HazardRecord_init = \<lparr>owner = None, ptr = None\<rparr>"

text \<open>
  The part of the process memory the operations work on: the heap of nodes of one node
  type \<open>'n\<close>, the global array \<open>g_hazard_records\<close>, the running thread's
  \<open>retired_list<Node>()\<close>, and the log. An address is an index into \<open>heap\<close>;
  \<open>new\<close> appends a cell (no address is handed out twice), \<open>delete\<close> empties one.
\<close>

record 'n mem =
  heap :: "'n option list"
  g_hazard_records :: "HazardRecord list"
  retired :: "addr list"
  trace :: "event list"

definition lookup :: "'n option list \<Rightarrow> addr \<Rightarrow> 'n option" where
  "lookup h a = (if a < length h then h ! a else None)"

definition threshold :: nat where "threshold = 64"

definition log :: "event \<Rightarrow> ('n, 'z) mem_scheme \<Rightarrow> ('n, 'z) mem_scheme" where
  "log e st = st\<lparr>trace := trace st @ [e]\<rparr>"

text \<open>The index of the first record whose owner is \<open>w\<close>.\<close>

fun find_owner :: "tid option \<Rightarrow> HazardRecord list \<Rightarrow> nat option" where
  "find_owner w [] = None"
| "find_owner w (r # rs) =
     (if owner r = w then Some 0 else map_option Suc (find_owner w rs))"

text \<open>
  \<open>acquire_hazard_record\<close>: the record this thread already owns, else the first free one,
  claimed by the CAS on \<open>owner\<close>; with neither, \<open>std::abort()\<close>. The result is the index
  of the record (the \<open>rec_\<close> of a \<open>HazardPointerOwner\<close>).
\<close>

definition acquire_hazard_record ::
  "tid \<Rightarrow> ('n, 'z) mem_scheme \<Rightarrow> fault + (nat \<times> ('n, 'z) mem_scheme)"
where
  "acquire_hazard_record me st =
     (case find_owner (Some me) (g_hazard_records st) of
        Some i \<Rightarrow> Inr (i, st)
      | None \<Rightarrow>
          (case find_owner None (g_hazard_records st) of
             Some i \<Rightarrow>
               Inr (i, st\<lparr>g_hazard_records :=
                           (g_hazard_records st)[i := (g_hazard_records st ! i)\<lparr>owner := Some me\<rparr>]\<rparr>)
           | None \<Rightarrow> Inl Abort))"

definition hp_set :: "nat \<Rightarrow> ptr \<Rightarrow> ('n, 'z) mem_scheme \<Rightarrow> ('n, 'z) mem_scheme" where
  "hp_set rec p st =
     log (Hp_set p)
       (st\<lparr>g_hazard_records := (g_hazard_records st)[rec := (g_hazard_records st ! rec)\<lparr>ptr := p\<rparr>]\<rparr>)"

definition hp_clear :: "nat \<Rightarrow> ('n, 'z) mem_scheme \<Rightarrow> ('n, 'z) mem_scheme" where
  "hp_clear rec st =
     log Hp_clear
       (st\<lparr>g_hazard_records := (g_hazard_records st)[rec := (g_hazard_records st ! rec)\<lparr>ptr := None\<rparr>]\<rparr>)"

fun collect_hazard_pointers :: "HazardRecord list \<Rightarrow> addr list" where
  "collect_hazard_pointers [] = []"
| "collect_hazard_pointers (r # rs) =
     (case ptr r of
        None \<Rightarrow> collect_hazard_pointers rs
      | Some p \<Rightarrow> p # collect_hazard_pointers rs)"

definition is_hazard :: "addr list \<Rightarrow> addr \<Rightarrow> bool" where
  "is_hazard hp_values p = (p \<in> set hp_values)"

text \<open>The default deleter \<open>delete p\<close>: the cell is gone from the heap.\<close>

definition delete_node :: "addr \<Rightarrow> ('n, 'z) mem_scheme \<Rightarrow> ('n, 'z) mem_scheme" where
  "delete_node p st = log (Delete p) (st\<lparr>heap := (heap st)[p := None]\<rparr>)"

fun scan_loop ::
  "bool \<Rightarrow> addr list \<Rightarrow> addr list \<Rightarrow> addr list \<Rightarrow> ('n, 'z) mem_scheme
     \<Rightarrow> addr list \<times> ('n, 'z) mem_scheme"
where
  "scan_loop force_all hp_values [] kept st = (kept, st)"
| "scan_loop force_all hp_values (p # ps) kept st =
     (if \<not> force_all \<and> is_hazard hp_values p
      then scan_loop force_all hp_values ps (kept @ [p]) st
      else scan_loop force_all hp_values ps kept (delete_node p st))"

definition scan :: "bool \<Rightarrow> ('n, 'z) mem_scheme \<Rightarrow> ('n, 'z) mem_scheme" where
  "scan force_all st =
     (let hp_values = collect_hazard_pointers (g_hazard_records st);
          (kept, st') = scan_loop force_all hp_values (retired st) [] st
      in st'\<lparr>retired := kept\<rparr>)"

definition retire :: "addr \<Rightarrow> ('n, 'z) mem_scheme \<Rightarrow> ('n, 'z) mem_scheme" where
  "retire node st =
     (let st1 = log (Retire node) (st\<lparr>retired := retired st @ [node]\<rparr>)
      in if length (retired st1) \<ge> threshold then scan False st1 else st1)"

definition force_reclaim :: "('n, 'z) mem_scheme \<Rightarrow> ('n, 'z) mem_scheme" where
  "force_reclaim st = scan True st"

section \<open>The shared head pointer\<close>

text \<open>
  The three lock-free containers each have a \<open>std::atomic<Node*> head_\<close>.
  \<open>compare_exchange_weak\<close> may fail although the value matches; whether it does is read
  from a list of flags, one for each weak CAS whose comparison succeeds (\<open>True\<close>: fail
  spuriously); when the list is used up the CAS no longer fails spuriously. A failed CAS
  loads the current value into \<open>expected\<close>. The results are: success, the new
  \<open>expected\<close>, the remaining flags, the state.
\<close>

record 'n with_head = "'n mem" +
  head :: ptr

definition cas_weak_head ::
  "bool list \<Rightarrow> ptr \<Rightarrow> ptr \<Rightarrow> ('n, 'z) with_head_scheme
     \<Rightarrow> bool \<times> ptr \<times> bool list \<times> ('n, 'z) with_head_scheme"
where
  "cas_weak_head sp expected desired st =
     (if head st = expected
      then (case sp of
              True # sp' \<Rightarrow> (False, expected, sp', log (Cas_head expected desired False) st)
            | _ \<Rightarrow> (True, expected, tl sp, log (Cas_head expected desired True) (st\<lparr>head := desired\<rparr>)))
      else (False, head st, sp, log (Cas_head expected desired False) st))"

definition cas_strong_head ::
  "ptr \<Rightarrow> ptr \<Rightarrow> ('n, 'z) with_head_scheme \<Rightarrow> bool \<times> ptr \<times> ('n, 'z) with_head_scheme"
where
  "cas_strong_head expected desired st =
     (if head st = expected
      then (True, expected, log (Cas_head expected desired True) (st\<lparr>head := desired\<rparr>))
      else (False, head st, log (Cas_head expected desired False) st))"

section \<open>treiber\_stack.h\<close>

text \<open>\<open>struct Node { T value; Node* next; }\<close>, declared alike by the Treiber stack and the
  elimination stack.\<close>

record 'a Node =
  node_value :: 'a
  node_next :: ptr

type_synonym 'a TreiberStack = "'a Node with_head"

text \<open>A fresh process with a freshly constructed stack.\<close>

definition TreiberStack_init :: "'a TreiberStack" where
  "TreiberStack_init =
     \<lparr>heap = [], g_hazard_records = replicate MAX_HAZARD_POINTERS HazardRecord_init,
      retired = [], trace = [], head = None\<rparr>"

definition new_Node :: "'a \<Rightarrow> ('a Node, 'z) mem_scheme \<Rightarrow> addr \<times> ('a Node, 'z) mem_scheme" where
  "new_Node v st =
     (length (heap st), st\<lparr>heap := heap st @ [Some \<lparr>node_value = v, node_next = None\<rparr>]\<rparr>)"

text \<open>\<open>n->next = p\<close> for a node the running operation has allocated itself.\<close>

definition store_next :: "addr \<Rightarrow> ptr \<Rightarrow> ('a Node, 'z) mem_scheme \<Rightarrow> ('a Node, 'z) mem_scheme" where
  "store_next n p st =
     st\<lparr>heap := (heap st)[n := map_option (\<lambda>nd. nd\<lparr>node_next := p\<rparr>) (lookup (heap st) n)]\<rparr>"

function ts_push_loop ::
  "bool list \<Rightarrow> addr \<Rightarrow> ptr \<Rightarrow> ('a Node, 'z) with_head_scheme \<Rightarrow> ('a Node, 'z) with_head_scheme"
where
  "ts_push_loop sp new_node old_head st =
     (let st1 = store_next new_node old_head st;
          (ok, old_head', sp', st2) = cas_weak_head sp old_head (Some new_node) st1
      in if ok then st2 else ts_push_loop sp' new_node old_head' st2)"
  by pat_completeness auto
termination
  by (relation "measure (\<lambda>(sp, n, old, st). 2 * length sp + (if head st = old then 0 else 1))")
     (auto simp: cas_weak_head_def store_next_def log_def split: if_splits list.splits bool.splits)

declare ts_push_loop.simps [simp del]

definition ts_push ::
  "'a \<Rightarrow> bool list \<Rightarrow> ('a Node, 'z) with_head_scheme \<Rightarrow> ('a Node, 'z) with_head_scheme"
where
  "ts_push v sp st =
     (let (new_node, st1) = new_Node v st;
          st2 = store_next new_node None st1;
          old_head = head st2
      in ts_push_loop sp new_node old_head st2)"

text \<open>
  The loop of \<open>pop\<close>. The result is \<open>None\<close> for \<open>return false\<close> and the unlinked
  \<open>old_head\<close> for \<open>break\<close>.
\<close>

function ts_pop_loop ::
  "bool list \<Rightarrow> nat \<Rightarrow> ('a Node, 'z) with_head_scheme
     \<Rightarrow> fault + (ptr \<times> ('a Node, 'z) with_head_scheme)"
where
  "ts_pop_loop sp hpo st =
     (let old_head = head st
      in case old_head of
           None \<Rightarrow> Inr (None, hp_clear hpo st)
         | Some a \<Rightarrow>
             (let st1 = hp_set hpo old_head st
              in if old_head \<noteq> head st1 then ts_pop_loop sp hpo st1
                 else (case lookup (heap st1) a of
                         None \<Rightarrow> Inl Bad_deref
                       | Some nd \<Rightarrow>
                           (let next = node_next nd;
                                st2 = log (Read_next a) st1;
                                (ok, old_head', sp', st3) = cas_weak_head sp old_head next st2
                            in if ok then Inr (old_head, st3) else ts_pop_loop sp' hpo st3))))"
  by pat_completeness auto
termination
  by (relation "measure (\<lambda>(sp, hpo, st). length sp)")
     (auto simp: cas_weak_head_def hp_set_def log_def split: if_splits list.splits bool.splits)

declare ts_pop_loop.simps [simp del]

text \<open>
  \<open>pop(out)\<close> run by thread \<open>me\<close>. The result carries the returned flag and the caller's
  \<open>out\<close> variable. The last \<open>hp_clear\<close> of each path is the destructor of \<open>hpo\<close>.
\<close>

definition ts_pop ::
  "tid \<Rightarrow> 'a \<Rightarrow> bool list \<Rightarrow> ('a Node, 'z) with_head_scheme
     \<Rightarrow> fault + (bool \<times> 'a \<times> ('a Node, 'z) with_head_scheme)"
where
  "ts_pop me out sp st =
     (case acquire_hazard_record me st of
        Inl f \<Rightarrow> Inl f
      | Inr (hpo, st0) \<Rightarrow>
          (case ts_pop_loop sp hpo st0 of
             Inl f \<Rightarrow> Inl f
           | Inr (None, st1) \<Rightarrow> Inr (False, out, hp_clear hpo st1)
           | Inr (Some old_head, st1) \<Rightarrow>
               (case lookup (heap st1) old_head of
                  None \<Rightarrow> Inl Bad_deref
                | Some nd \<Rightarrow>
                    (let out' = node_value nd;
                         st2 = log (Read_value old_head) st1;
                         st3 = hp_clear hpo st2;
                         st4 = retire old_head st3
                     in Inr (True, out', hp_clear hpo st4)))))"

definition ts_empty :: "('a Node, 'z) with_head_scheme \<Rightarrow> bool" where
  "ts_empty st = (head st = None)"

section \<open>elimination\_stack.h\<close>

definition ELIM_ARRAY_SIZE :: nat where "ELIM_ARRAY_SIZE = 16"
definition ELIM_TRIES :: nat where "ELIM_TRIES = 4"
definition CAS_THRESHOLD :: nat where "CAS_THRESHOLD = 4"
definition SPIN_ITERS :: nat where "SPIN_ITERS = 10"

text \<open>
  \<open>arena\<close> is the \<open>std::array\<close> of \<open>ELIM_ARRAY_SIZE\<close> slots. \<open>rng\<close> is the running
  thread's \<open>std::mt19937\<close>, kept as the numbers it is going to produce; \<open>random_slot\<close>
  reduces the next one to a slot index (0 when the list is used up).
\<close>

record 'a EliminationStack = "'a Node with_head" +
  arena :: "ptr list"
  rng :: "nat list"

definition EliminationStack_init :: "nat list \<Rightarrow> 'a EliminationStack" where
  "EliminationStack_init seed =
     \<lparr>heap = [], g_hazard_records = replicate MAX_HAZARD_POINTERS HazardRecord_init,
      retired = [], trace = [], head = None,
      arena = replicate ELIM_ARRAY_SIZE None, rng = seed\<rparr>"

definition random_slot :: "'a EliminationStack \<Rightarrow> nat \<times> 'a EliminationStack" where
  "random_slot st =
     (case rng st of
        [] \<Rightarrow> (0, st)
      | x # xs \<Rightarrow> (x mod ELIM_ARRAY_SIZE, st\<lparr>rng := xs\<rparr>))"

text \<open>The strong CAS and the exchange on one arena slot.\<close>

definition arena_cas :: "nat \<Rightarrow> ptr \<Rightarrow> ptr \<Rightarrow> 'a EliminationStack \<Rightarrow> bool \<times> 'a EliminationStack" where
  "arena_cas idx expected desired st =
     (if arena st ! idx = expected then (True, st\<lparr>arena := (arena st)[idx := desired]\<rparr>)
      else (False, st))"

definition arena_exchange :: "nat \<Rightarrow> ptr \<Rightarrow> 'a EliminationStack \<Rightarrow> ptr \<times> 'a EliminationStack" where
  "arena_exchange idx desired st = (arena st ! idx, st\<lparr>arena := (arena st)[idx := desired]\<rparr>)"

text \<open>The spin of \<open>try_elim_push\<close>: \<open>True\<close> when the slot is seen to differ from \<open>n\<close>.\<close>

fun spin_wait :: "nat \<Rightarrow> nat \<Rightarrow> addr \<Rightarrow> 'a EliminationStack \<Rightarrow> bool" where
  "spin_wait 0 idx n st = False"
| "spin_wait (Suc i) idx n st =
     (let cur = arena st ! idx in if cur \<noteq> Some n then True else spin_wait i idx n st)"

text \<open>
  \<open>try_elim_push(n)\<close> in its two steps, with the attempts that are left as the recursion
  argument of the loop. The offer draws a slot and tries to park \<open>n\<close> in it with the first
  CAS; its results are the slot, the success of the CAS and the state, in which the other
  threads run while the push waits. The wait spins on the slot and then tries to take \<open>n\<close>
  back with the second CAS. The results of the loop are the returned flag, \<open>n\<close> (set to
  null when a pop took the node) and the state.
\<close>

definition try_elim_push_offer ::
  "addr \<Rightarrow> 'a EliminationStack \<Rightarrow> nat \<times> bool \<times> 'a EliminationStack"
where
  "try_elim_push_offer n st =
     (let (idx, st1) = random_slot st;
          (offered, st2) = arena_cas idx None (Some n) st1
      in (idx, offered, st2))"

definition try_elim_push_wait ::
  "nat \<Rightarrow> addr \<Rightarrow> 'a EliminationStack \<Rightarrow> bool \<times> ptr \<times> 'a EliminationStack"
where
  "try_elim_push_wait idx n st2 =
     (if spin_wait SPIN_ITERS idx n st2 then (True, None, st2)
      else (let (reclaimed, st3) = arena_cas idx (Some n) None st2
            in if reclaimed then (False, Some n, st3) else (True, None, st3)))"

fun try_elim_push_loop ::
  "nat \<Rightarrow> addr \<Rightarrow> 'a EliminationStack \<Rightarrow> bool \<times> ptr \<times> 'a EliminationStack"
where
  "try_elim_push_loop 0 n st = (False, Some n, st)"
| "try_elim_push_loop (Suc k) n st =
     (let (idx, offered, st2) = try_elim_push_offer n st
      in if offered then try_elim_push_wait idx n st2 else try_elim_push_loop k n st2)"

definition try_elim_push :: "addr \<Rightarrow> 'a EliminationStack \<Rightarrow> bool \<times> ptr \<times> 'a EliminationStack" where
  "try_elim_push n st = try_elim_push_loop ELIM_TRIES n st"

fun try_elim_pop_loop ::
  "nat \<Rightarrow> 'a \<Rightarrow> 'a EliminationStack \<Rightarrow> fault + (bool \<times> 'a \<times> 'a EliminationStack)"
where
  "try_elim_pop_loop 0 out st = Inr (False, out, st)"
| "try_elim_pop_loop (Suc k) out st =
     (let (idx, st1) = random_slot st;
          (n, st2) = arena_exchange idx None st1
      in case n of
           None \<Rightarrow> try_elim_pop_loop k out st2
         | Some a \<Rightarrow>
             (case lookup (heap st2) a of
                None \<Rightarrow> Inl Bad_deref
              | Some nd \<Rightarrow> Inr (True, node_value nd, delete_node a (log (Read_value a) st2))))"

definition try_elim_pop ::
  "'a \<Rightarrow> 'a EliminationStack \<Rightarrow> fault + (bool \<times> 'a \<times> 'a EliminationStack)"
where
  "try_elim_pop out st = try_elim_pop_loop ELIM_TRIES out st"

fun slots_null :: "ptr list \<Rightarrow> bool" where
  "slots_null [] = True"
| "slots_null (slot # slots) = (if slot \<noteq> None then False else slots_null slots)"

definition es_empty :: "'a EliminationStack \<Rightarrow> bool" where
  "es_empty st = (if head st \<noteq> None then False else slots_null (arena st))"

function es_push_loop ::
  "bool list \<Rightarrow> nat \<Rightarrow> addr \<Rightarrow> 'a EliminationStack \<Rightarrow> 'a EliminationStack"
where
  "es_push_loop sp cas_failures n st =
     (let old_head = head st;
          st1 = store_next n old_head st;
          (ok, old_head', sp', st2) = cas_weak_head sp old_head (Some n) st1
      in if ok then st2
         else if Suc cas_failures \<ge> CAS_THRESHOLD
              then (let (eliminated, n', st3) = try_elim_push n st2
                    in if eliminated then st3 else es_push_loop sp' 0 n st3)
              else es_push_loop sp' (Suc cas_failures) n st2)"
  by pat_completeness auto
termination
  by (relation "measure (\<lambda>(sp, c, n, st). length sp)")
     (auto simp: cas_weak_head_def store_next_def log_def split: if_splits list.splits bool.splits)

declare es_push_loop.simps [simp del]

definition es_push :: "'a \<Rightarrow> bool list \<Rightarrow> 'a EliminationStack \<Rightarrow> 'a EliminationStack" where
  "es_push v sp st = (let (n, st1) = new_Node v st in es_push_loop sp 0 n st1)"

function es_pop_loop ::
  "bool list \<Rightarrow> nat \<Rightarrow> 'a \<Rightarrow> 'a EliminationStack
     \<Rightarrow> fault + (bool \<times> 'a \<times> 'a EliminationStack)"
where
  "es_pop_loop sp cas_failures out st =
     (let old_head = head st
      in case old_head of
           None \<Rightarrow> try_elim_pop out st
         | Some a \<Rightarrow>
             (case lookup (heap st) a of
                None \<Rightarrow> Inl Bad_deref
              | Some nd \<Rightarrow>
                  (let next = node_next nd;
                       st1 = log (Read_next a) st;
                       (ok, old_head', sp', st2) = cas_weak_head sp old_head next st1
                   in if ok
                      then (case lookup (heap st2) a of
                              None \<Rightarrow> Inl Bad_deref
                            | Some nd' \<Rightarrow>
                                Inr (True, node_value nd', delete_node a (log (Read_value a) st2)))
                      else if Suc cas_failures \<ge> CAS_THRESHOLD
                           then (case try_elim_pop out st2 of
                                   Inl f \<Rightarrow> Inl f
                                 | Inr (taken, out', st3) \<Rightarrow>
                                     if taken then Inr (True, out', st3)
                                     else es_pop_loop sp' 0 out' st3)
                           else es_pop_loop sp' (Suc cas_failures) out st2)))"
  by pat_completeness auto
termination
  by (relation "measure (\<lambda>(sp, c, out, st). length sp)")
     (auto simp: cas_weak_head_def log_def split: if_splits list.splits bool.splits)

declare es_pop_loop.simps [simp del]

definition es_pop ::
  "'a \<Rightarrow> bool list \<Rightarrow> 'a EliminationStack \<Rightarrow> fault + (bool \<times> 'a \<times> 'a EliminationStack)"
where
  "es_pop out sp st = es_pop_loop sp 0 out st"

section \<open>ms\_queue.h\<close>

text \<open>\<open>struct Node { std::atomic<Node*> next; std::optional<T> value; }\<close>\<close>

record 'a QNode =
  qnode_next :: ptr
  qnode_value :: "'a option"

record 'a MSQueue = "'a QNode with_head" +
  tail :: ptr

text \<open>A fresh process and the constructor: the sentinel is the first cell.\<close>

definition MSQueue_init :: "'a MSQueue" where
  "MSQueue_init =
     \<lparr>heap = [Some \<lparr>qnode_next = None, qnode_value = None\<rparr>],
      g_hazard_records = replicate MAX_HAZARD_POINTERS HazardRecord_init,
      retired = [], trace = [], head = Some 0, tail = Some 0\<rparr>"

definition new_QNode :: "'a \<Rightarrow> 'a MSQueue \<Rightarrow> addr \<times> 'a MSQueue" where
  "new_QNode v st =
     (length (heap st), st\<lparr>heap := heap st @ [Some \<lparr>qnode_next = None, qnode_value = Some v\<rparr>]\<rparr>)"

definition cas_strong_tail :: "ptr \<Rightarrow> ptr \<Rightarrow> 'a MSQueue \<Rightarrow> bool \<times> 'a MSQueue" where
  "cas_strong_tail expected desired st =
     (if tail st = expected then (True, st\<lparr>tail := desired\<rparr>) else (False, st))"

text \<open>
  The weak CAS on \<open>t->next\<close>, for a node \<open>t\<close> the caller has just read through. The
  results are success, the remaining flags and the state.
\<close>

definition cas_weak_next ::
  "bool list \<Rightarrow> addr \<Rightarrow> ptr \<Rightarrow> ptr \<Rightarrow> 'a MSQueue \<Rightarrow> bool \<times> bool list \<times> 'a MSQueue"
where
  "cas_weak_next sp t expected desired st =
     (case lookup (heap st) t of
        None \<Rightarrow> (False, sp, st)
      | Some tn \<Rightarrow>
          if qnode_next tn = expected
          then (case sp of
                  True # sp' \<Rightarrow> (False, sp', st)
                | _ \<Rightarrow> (True, tl sp, st\<lparr>heap := (heap st)[t := Some (tn\<lparr>qnode_next := desired\<rparr>)]\<rparr>))
          else (False, sp, st))"

text \<open>
  The loops of \<open>enqueue\<close> and \<open>dequeue\<close> can go round for ever on a heap whose \<open>next\<close>
  links form a cycle, so they are given the number of iterations they may take.
\<close>

fun enqueue_loop :: "nat \<Rightarrow> bool list \<Rightarrow> addr \<Rightarrow> 'a MSQueue \<Rightarrow> fault + 'a MSQueue" where
  "enqueue_loop 0 sp new_node st = Inl Out_of_fuel"
| "enqueue_loop (Suc k) sp new_node st =
     (case tail st of
        None \<Rightarrow> Inl Bad_deref
      | Some t \<Rightarrow>
          (case lookup (heap st) t of
             None \<Rightarrow> Inl Bad_deref
           | Some tn \<Rightarrow>
               (let next = qnode_next tn
                in if Some t = tail st
                   then (if next = None
                         then (let (ok, sp', st1) = cas_weak_next sp t next (Some new_node) st
                               in if ok then Inr (snd (cas_strong_tail (Some t) (Some new_node) st1))
                                  else enqueue_loop k sp' new_node st1)
                         else enqueue_loop k sp new_node (snd (cas_strong_tail (Some t) next st)))
                   else enqueue_loop k sp new_node st)))"

definition enqueue :: "'a \<Rightarrow> bool list \<Rightarrow> nat \<Rightarrow> 'a MSQueue \<Rightarrow> fault + 'a MSQueue" where
  "enqueue v sp fuel st = (let (new_node, st1) = new_QNode v st in enqueue_loop fuel sp new_node st1)"

fun dequeue_loop ::
  "nat \<Rightarrow> nat \<Rightarrow> 'a \<Rightarrow> 'a MSQueue \<Rightarrow> fault + (bool \<times> 'a \<times> 'a MSQueue)"
where
  "dequeue_loop 0 hp_head out st = Inl Out_of_fuel"
| "dequeue_loop (Suc k) hp_head out st =
     (let hd_ptr = head st;
          st1 = hp_set hp_head hd_ptr st;
          tl_ptr = tail st1
      in case hd_ptr of
           None \<Rightarrow> Inl Bad_deref
         | Some h \<Rightarrow>
             (case lookup (heap st1) h of
                None \<Rightarrow> Inl Bad_deref
              | Some hn \<Rightarrow>
                  (let next = qnode_next hn;
                       st2 = log (Read_next h) st1
                   in if hd_ptr \<noteq> head st2 then dequeue_loop k hp_head out st2
                      else (case next of
                              None \<Rightarrow> Inr (False, out, st2)
                            | Some x \<Rightarrow>
                                if hd_ptr = tl_ptr
                                then dequeue_loop k hp_head out (snd (cas_strong_tail tl_ptr next st2))
                                else (let (ok, hd_ptr', st3) = cas_strong_head hd_ptr next st2
                                      in if ok
                                         then (case lookup (heap st3) x of
                                                 None \<Rightarrow> Inl Bad_deref
                                               | Some xn \<Rightarrow>
                                                   (case qnode_value xn of
                                                      None \<Rightarrow> Inl Bad_deref
                                                    | Some v \<Rightarrow>
                                                        (let st4 = log (Read_value x) st3;
                                                             st5 = hp_clear hp_head st4;
                                                             st6 = retire h st5
                                                         in Inr (True, v, st6))))
                                         else dequeue_loop k hp_head out st3)))))"

text \<open>The last \<open>hp_clear\<close> is the destructor of \<open>hp_head\<close>.\<close>

definition dequeue ::
  "tid \<Rightarrow> 'a \<Rightarrow> nat \<Rightarrow> 'a MSQueue \<Rightarrow> fault + (bool \<times> 'a \<times> 'a MSQueue)"
where
  "dequeue me out fuel st =
     (case acquire_hazard_record me st of
        Inl f \<Rightarrow> Inl f
      | Inr (hp_head, st0) \<Rightarrow>
          (case dequeue_loop fuel hp_head out st0 of
             Inl f \<Rightarrow> Inl f
           | Inr (ok, out', st1) \<Rightarrow> Inr (ok, out', hp_clear hp_head st1)))"

definition msq_empty :: "'a MSQueue \<Rightarrow> fault + bool" where
  "msq_empty st =
     (case head st of
        None \<Rightarrow> Inl Bad_deref
      | Some h \<Rightarrow>
          (case lookup (heap st) h of
             None \<Rightarrow> Inl Bad_deref
           | Some hn \<Rightarrow> Inr (qnode_next hn = None)))"

section \<open>sgl\_stack.h and sgl\_queue.h\<close>

text \<open>
  The operations hold the mutex from their first statement to their last, so each is one
  step on \<open>data\<close>. \<open>push_back\<close> appends; the stack takes \<open>back()\<close>, the queue
  \<open>front()\<close>.
\<close>

record 'a SGLStack =
  sgls_data :: "'a list"

record 'a SGLQueue =
  sglq_data :: "'a list"

definition SGLStack_init :: "'a SGLStack" where
  "SGLStack_init = \<lparr>sgls_data = []\<rparr>"

definition SGLQueue_init :: "'a SGLQueue" where
  "SGLQueue_init = \<lparr>sglq_data = []\<rparr>"

definition sgls_push :: "'a \<Rightarrow> 'a SGLStack \<Rightarrow> 'a SGLStack" where
  "sgls_push v s = s\<lparr>sgls_data := sgls_data s @ [v]\<rparr>"

definition sgls_pop :: "'a \<Rightarrow> 'a SGLStack \<Rightarrow> bool \<times> 'a \<times> 'a SGLStack" where
  "sgls_pop out s =
     (if sgls_data s = [] then (False, out, s)
      else (True, last (sgls_data s), s\<lparr>sgls_data := butlast (sgls_data s)\<rparr>))"

definition sgls_empty :: "'a SGLStack \<Rightarrow> bool" where
  "sgls_empty s = (sgls_data s = [])"

definition sgls_size :: "'a SGLStack \<Rightarrow> nat" where
  "sgls_size s = length (sgls_data s)"

definition sglq_enqueue :: "'a \<Rightarrow> 'a SGLQueue \<Rightarrow> 'a SGLQueue" where
  "sglq_enqueue v s = s\<lparr>sglq_data := sglq_data s @ [v]\<rparr>"

definition sglq_dequeue :: "'a \<Rightarrow> 'a SGLQueue \<Rightarrow> bool \<times> 'a \<times> 'a SGLQueue" where
  "sglq_dequeue out s =
     (if sglq_data s = [] then (False, out, s)
      else (True, hd (sglq_data s), s\<lparr>sglq_data := tl (sglq_data s)\<rparr>))"

definition sglq_empty :: "'a SGLQueue \<Rightarrow> bool" where
  "sglq_empty s = (sglq_data s = [])"

definition sglq_size :: "'a SGLQueue \<Rightarrow> nat" where
  "sglq_size s = length (sglq_data s)"

section \<open>flat\_combining\_stack.h and flat\_combining\_queue.h\<close>

text \<open>
  A \<open>Request\<close> holds the op-tag, the value slot (value-initialised, \<open>0\<close>) and the success
  flag. Each of the two class templates has, for one element type, a
  \<open>thread_local static Request* tls_req\<close>: one pointer for each thread, declared
  \<open>static\<close> and so shared by every container of that class. \<open>fc_statics\<close> holds these
  pointers together with the \<open>Request\<close> objects \<open>get_request\<close> has allocated (no code
  frees one; the address of a \<open>Request\<close> is its index). A container itself has its
  sequence \<open>data\<close> and its publication list \<open>requests\<close>. The operations hold
  \<open>combine_m\<close> around every access to these two.
\<close>

datatype Op = NONE | PUSH | POP

datatype QOp = QNONE | ENQ | DEQ

record ('o, 'a) Request =
  op :: 'o
  req_value :: 'a
  success :: bool

record ('o, 'a) fc_statics =
  tls_req :: "tid \<Rightarrow> ptr"
  req_heap :: "('o, 'a) Request list"

record 'a FlatCombiningStack =
  fcs_data :: "'a list"
  fcs_requests :: "addr list"

record 'a FlatCombiningQueue =
  fcq_data :: "'a list"
  fcq_requests :: "addr list"

definition req_at :: "('o, 'a) Request list \<Rightarrow> addr \<Rightarrow> ('o, 'a) Request option" where
  "req_at h r = (if r < length h then Some (h ! r) else None)"

text \<open>A process in which no thread has used a container of the class yet.\<close>

definition fc_statics_init :: "('o, 'a) fc_statics" where
  "fc_statics_init = \<lparr>tls_req = (\<lambda>t. None), req_heap = []\<rparr>"

definition FlatCombiningStack_init :: "'a FlatCombiningStack" where
  "FlatCombiningStack_init = \<lparr>fcs_data = [], fcs_requests = []\<rparr>"

definition FlatCombiningQueue_init :: "'a FlatCombiningQueue" where
  "FlatCombiningQueue_init = \<lparr>fcq_data = [], fcq_requests = []\<rparr>"

definition fcs_get_request ::
  "tid \<Rightarrow> 'a FlatCombiningStack \<times> (Op, 'a::zero) fc_statics
     \<Rightarrow> addr \<times> 'a FlatCombiningStack \<times> (Op, 'a) fc_statics"
where
  "fcs_get_request me sp =
     (let (s, p) = sp
      in case tls_req p me of
           None \<Rightarrow>
             (let r = length (req_heap p);
                  p1 = p\<lparr>req_heap := req_heap p @ [\<lparr>op = NONE, req_value = 0, success = False\<rparr>]\<rparr>;
                  s1 = s\<lparr>fcs_requests := fcs_requests s @ [r]\<rparr>;
                  p2 = p1\<lparr>tls_req := (tls_req p1)(me := Some r)\<rparr>
              in (r, s1, p2))
         | Some r \<Rightarrow> (r, s, p))"

text \<open>What \<open>combine\<close> does with one entry \<open>r\<close> of the publication list.\<close>

definition fcs_visit ::
  "addr \<Rightarrow> 'a FlatCombiningStack \<times> (Op, 'a) fc_statics
     \<Rightarrow> fault + ('a FlatCombiningStack \<times> (Op, 'a) fc_statics)"
where
  "fcs_visit r sp =
     (let (s, p) = sp
      in case req_at (req_heap p) r of
           None \<Rightarrow> Inl Bad_deref
         | Some rq \<Rightarrow>
             (case op rq of
                PUSH \<Rightarrow>
                  Inr (s\<lparr>fcs_data := fcs_data s @ [req_value rq]\<rparr>,
                       p\<lparr>req_heap := (req_heap p)[r := rq\<lparr>op := NONE\<rparr>]\<rparr>)
              | POP \<Rightarrow>
                  if fcs_data s \<noteq> []
                  then Inr (s\<lparr>fcs_data := butlast (fcs_data s)\<rparr>,
                            p\<lparr>req_heap := (req_heap p)
                                 [r := rq\<lparr>req_value := last (fcs_data s), success := True, op := NONE\<rparr>]\<rparr>)
                  else Inr (s, p\<lparr>req_heap := (req_heap p)[r := rq\<lparr>success := False, op := NONE\<rparr>]\<rparr>)
              | NONE \<Rightarrow> Inr (s, p)))"

fun fcs_combine_loop ::
  "addr list \<Rightarrow> 'a FlatCombiningStack \<times> (Op, 'a) fc_statics
     \<Rightarrow> fault + ('a FlatCombiningStack \<times> (Op, 'a) fc_statics)"
where
  "fcs_combine_loop [] sp = Inr sp"
| "fcs_combine_loop (r # rs) sp =
     (case fcs_visit r sp of Inl f \<Rightarrow> Inl f | Inr sp' \<Rightarrow> fcs_combine_loop rs sp')"

definition fcs_combine ::
  "'a FlatCombiningStack \<times> (Op, 'a) fc_statics
     \<Rightarrow> fault + ('a FlatCombiningStack \<times> (Op, 'a) fc_statics)"
where
  "fcs_combine sp = fcs_combine_loop (fcs_requests (fst sp)) sp"

definition fcs_push ::
  "tid \<Rightarrow> 'a \<Rightarrow> 'a FlatCombiningStack \<times> (Op, 'a::zero) fc_statics
     \<Rightarrow> fault + ('a FlatCombiningStack \<times> (Op, 'a) fc_statics)"
where
  "fcs_push me v sp =
     (let (r, s, p) = fcs_get_request me sp
      in case req_at (req_heap p) r of
           None \<Rightarrow> Inl Bad_deref
         | Some rq \<Rightarrow>
             fcs_combine
               (s, p\<lparr>req_heap := (req_heap p)[r := rq\<lparr>req_value := v, success := True, op := PUSH\<rparr>]\<rparr>))"

definition fcs_pop ::
  "tid \<Rightarrow> 'a \<Rightarrow> 'a FlatCombiningStack \<times> (Op, 'a::zero) fc_statics
     \<Rightarrow> fault + (bool \<times> 'a \<times> 'a FlatCombiningStack \<times> (Op, 'a) fc_statics)"
where
  "fcs_pop me out sp =
     (let (r, s, p) = fcs_get_request me sp
      in case req_at (req_heap p) r of
           None \<Rightarrow> Inl Bad_deref
         | Some rq \<Rightarrow>
             (case fcs_combine (s, p\<lparr>req_heap := (req_heap p)[r := rq\<lparr>success := False, op := POP\<rparr>]\<rparr>) of
                Inl f \<Rightarrow> Inl f
              | Inr (s', p') \<Rightarrow>
                  (case req_at (req_heap p') r of
                     None \<Rightarrow> Inl Bad_deref
                   | Some rq' \<Rightarrow>
                       Inr (success rq', if success rq' then req_value rq' else out, s', p'))))"

definition fcs_empty :: "'a FlatCombiningStack \<times> (Op, 'a) fc_statics \<Rightarrow> bool" where
  "fcs_empty sp = (fcs_data (fst sp) = [])"

definition fcq_get_request ::
  "tid \<Rightarrow> 'a FlatCombiningQueue \<times> (QOp, 'a::zero) fc_statics
     \<Rightarrow> addr \<times> 'a FlatCombiningQueue \<times> (QOp, 'a) fc_statics"
where
  "fcq_get_request me sp =
     (let (s, p) = sp
      in case tls_req p me of
           None \<Rightarrow>
             (let r = length (req_heap p);
                  p1 = p\<lparr>req_heap := req_heap p @ [\<lparr>op = QNONE, req_value = 0, success = False\<rparr>]\<rparr>;
                  s1 = s\<lparr>fcq_requests := fcq_requests s @ [r]\<rparr>;
                  p2 = p1\<lparr>tls_req := (tls_req p1)(me := Some r)\<rparr>
              in (r, s1, p2))
         | Some r \<Rightarrow> (r, s, p))"

definition fcq_visit ::
  "addr \<Rightarrow> 'a FlatCombiningQueue \<times> (QOp, 'a) fc_statics
     \<Rightarrow> fault + ('a FlatCombiningQueue \<times> (QOp, 'a) fc_statics)"
where
  "fcq_visit r sp =
     (let (s, p) = sp
      in case req_at (req_heap p) r of
           None \<Rightarrow> Inl Bad_deref
         | Some rq \<Rightarrow>
             (case op rq of
                ENQ \<Rightarrow>
                  Inr (s\<lparr>fcq_data := fcq_data s @ [req_value rq]\<rparr>,
                       p\<lparr>req_heap := (req_heap p)[r := rq\<lparr>op := QNONE\<rparr>]\<rparr>)
              | DEQ \<Rightarrow>
                  if fcq_data s \<noteq> []
                  then Inr (s\<lparr>fcq_data := tl (fcq_data s)\<rparr>,
                            p\<lparr>req_heap := (req_heap p)
                                 [r := rq\<lparr>req_value := hd (fcq_data s), success := True, op := QNONE\<rparr>]\<rparr>)
                  else Inr (s, p\<lparr>req_heap := (req_heap p)[r := rq\<lparr>success := False, op := QNONE\<rparr>]\<rparr>)
              | QNONE \<Rightarrow> Inr (s, p)))"

fun fcq_combine_loop ::
  "addr list \<Rightarrow> 'a FlatCombiningQueue \<times> (QOp, 'a) fc_statics
     \<Rightarrow> fault + ('a FlatCombiningQueue \<times> (QOp, 'a) fc_statics)"
where
  "fcq_combine_loop [] sp = Inr sp"
| "fcq_combine_loop (r # rs) sp =
     (case fcq_visit r sp of Inl f \<Rightarrow> Inl f | Inr sp' \<Rightarrow> fcq_combine_loop rs sp')"

definition fcq_combine ::
  "'a FlatCombiningQueue \<times> (QOp, 'a) fc_statics
     \<Rightarrow> fault + ('a FlatCombiningQueue \<times> (QOp, 'a) fc_statics)"
where
  "fcq_combine sp = fcq_combine_loop (fcq_requests (fst sp)) sp"

definition fcq_enqueue ::
  "tid \<Rightarrow> 'a \<Rightarrow> 'a FlatCombiningQueue \<times> (QOp, 'a::zero) fc_statics
     \<Rightarrow> fault + ('a FlatCombiningQueue \<times> (QOp, 'a) fc_statics)"
where
  "fcq_enqueue me v sp =
     (let (r, s, p) = fcq_get_request me sp
      in case req_at (req_heap p) r of
           None \<Rightarrow> Inl Bad_deref
         | Some rq \<Rightarrow>
             fcq_combine
               (s, p\<lparr>req_heap := (req_heap p)[r := rq\<lparr>req_value := v, success := True, op := ENQ\<rparr>]\<rparr>))"

definition fcq_dequeue ::
  "tid \<Rightarrow> 'a \<Rightarrow> 'a FlatCombiningQueue \<times> (QOp, 'a::zero) fc_statics
     \<Rightarrow> fault + (bool \<times> 'a \<times> 'a FlatCombiningQueue \<times> (QOp, 'a) fc_statics)"
where
  "fcq_dequeue me out sp =
     (let (r, s, p) = fcq_get_request me sp
      in case req_at (req_heap p) r of
           None \<Rightarrow> Inl Bad_deref
         | Some rq \<Rightarrow>
             (case fcq_combine (s, p\<lparr>req_heap := (req_heap p)[r := rq\<lparr>success := False, op := DEQ\<rparr>]\<rparr>) of
                Inl f \<Rightarrow> Inl f
              | Inr (s', p') \<Rightarrow>
                  (case req_at (req_heap p') r of
                     None \<Rightarrow> Inl Bad_deref
                   | Some rq' \<Rightarrow>
                       Inr (success rq', if success rq' then req_value rq' else out, s', p'))))"

definition fcq_empty :: "'a FlatCombiningQueue \<times> (QOp, 'a) fc_statics \<Rightarrow> bool" where
  "fcq_empty sp = (fcq_data (fst sp) = [])"

section \<open>Notions used to state the properties\<close>

text \<open>The addresses some hazard record publishes, and a heap with a list of cells emptied.\<close>

definition hazardous :: "('n, 'z) mem_scheme \<Rightarrow> addr set" where
  "hazardous st = {a. \<exists>r\<in>set (g_hazard_records st). ptr r = Some a}"

fun free_all :: "addr list \<Rightarrow> 'n option list \<Rightarrow> 'n option list" where
  "free_all [] h = h"
| "free_all (p # ps) h = free_all ps (h[p := None])"

text \<open>A memory with one published hazard pointer and 63 retired nodes, one short of the threshold.\<close>

definition mem_63_retired :: "unit mem" where
  "mem_63_retired =
     \<lparr>heap = replicate 64 (Some ()),
      g_hazard_records = [\<lparr>owner = Some 1, ptr = Some 5\<rparr>, \<lparr>owner = None, ptr = None\<rparr>],
      retired = [0..<63], trace = []\<rparr>"

text \<open>
  A chain of nodes in the heap: the list of addresses and values met from a pointer to null.
  The invariant of the Treiber stack says the nodes from \<open>head\<close> are such a chain, nothing is
  retired, no hazard pointer is published, and the calling thread can get a hazard record.
\<close>

fun chain :: "'a Node option list \<Rightarrow> ptr \<Rightarrow> (addr \<times> 'a) list \<Rightarrow> bool" where
  "chain h p [] = (p = None)"
| "chain h p ((a, x) # axs) =
     (p = Some a \<and>
      (case lookup h a of None \<Rightarrow> False | Some nd \<Rightarrow> node_value nd = x \<and> chain h (node_next nd) axs))"

definition hp_available :: "tid \<Rightarrow> ('n, 'z) mem_scheme \<Rightarrow> bool" where
  "hp_available me st =
     (find_owner (Some me) (g_hazard_records st) \<noteq> None \<or> find_owner None (g_hazard_records st) \<noteq> None)"

definition ts_inv :: "tid \<Rightarrow> ('a Node, 'z) with_head_scheme \<Rightarrow> (addr \<times> 'a) list \<Rightarrow> bool" where
  "ts_inv me st axs =
     (chain (heap st) (head st) axs \<and> distinct (map fst axs)
      \<and> (\<forall>a\<in>set (retired st). a \<notin> fst ` set axs \<and> a < length (heap st))
      \<and> hp_available me st)"

text \<open>
  What \<open>retire\<close> deletes and what it keeps, in closed form.
\<close>

definition retire_dels :: "addr \<Rightarrow> ('n, 'z) mem_scheme \<Rightarrow> addr list" where
  "retire_dels a st =
     (if length (retired st) + 1 \<ge> threshold
      then filter (\<lambda>p. p \<notin> hazardous st) (retired st @ [a]) else [])"

definition retire_kept :: "addr \<Rightarrow> ('n, 'z) mem_scheme \<Rightarrow> addr list" where
  "retire_kept a st =
     (if length (retired st) + 1 \<ge> threshold
      then filter (\<lambda>p. p \<in> hazardous st) (retired st @ [a]) else retired st @ [a])"

text \<open>
  The elimination stack never touches the hazard registry or the retired list: \<open>no_smr\<close>
  relates two states with the same registry and retired list, between which no hazard pointer
  was set or cleared and nothing was retired.
\<close>

fun hp_free :: "event \<Rightarrow> bool" where
  "hp_free (Hp_set p) = False"
| "hp_free Hp_clear = False"
| "hp_free (Retire a) = False"
| "hp_free e = True"

definition no_smr :: "('n, 'z) mem_scheme \<Rightarrow> ('n, 'z) mem_scheme \<Rightarrow> bool" where
  "no_smr st st' =
     (g_hazard_records st' = g_hazard_records st \<and> retired st' = retired st
      \<and> (\<exists>evs. trace st' = trace st @ evs \<and> list_all hp_free evs))"

definition es_inv :: "'a EliminationStack \<Rightarrow> (addr \<times> 'a) list \<Rightarrow> bool" where
  "es_inv st axs =
     (chain (heap st) (head st) axs \<and> distinct (map fst axs)
      \<and> arena st = replicate ELIM_ARRAY_SIZE None)"

text \<open>
  The nodes of the queue after the dummy node, as a linked list ending at \<open>tail\<close>.
\<close>

fun qlinks :: "'a QNode option list \<Rightarrow> ptr \<Rightarrow> addr list \<Rightarrow> bool" where
  "qlinks h p [] = (p = None)"
| "qlinks h p (a # as) =
     (p = Some a \<and> (case lookup h a of None \<Rightarrow> False | Some nd \<Rightarrow> qlinks h (qnode_next nd) as))"

definition qvals :: "'a QNode option list \<Rightarrow> (addr \<times> 'a) list \<Rightarrow> bool" where
  "qvals h axs =
     list_all (\<lambda>(a, x). case lookup h a of None \<Rightarrow> False | Some nd \<Rightarrow> qnode_value nd = Some x) axs"

definition msq_inv :: "tid \<Rightarrow> 'a MSQueue \<Rightarrow> addr \<Rightarrow> (addr \<times> 'a) list \<Rightarrow> bool" where
  "msq_inv me st d axs =
     (head st = Some d \<and> qlinks (heap st) (Some d) (d # map fst axs) \<and> qvals (heap st) axs
      \<and> tail st = Some (last (d # map fst axs)) \<and> distinct (d # map fst axs)
      \<and> (\<forall>a\<in>set (retired st). a \<notin> set (d # map fst axs) \<and> a < length (heap st))
      \<and> hp_available me st)"


text \<open>
  The calling thread's request record is either unset, or idle and linked in this container's
  publication list, and every linked record is idle.
\<close>

definition fcs_inv :: "tid \<Rightarrow> 'a FlatCombiningStack \<times> (Op, 'a) fc_statics \<Rightarrow> bool" where
  "fcs_inv me sp =
     ((\<forall>r\<in>set (fcs_requests (fst sp)).
          r < length (req_heap (snd sp)) \<and> op (req_heap (snd sp) ! r) = NONE)
      \<and> (case tls_req (snd sp) me of None \<Rightarrow> True | Some r \<Rightarrow> r \<in> set (fcs_requests (fst sp))))"

definition served :: "(Op, 'a) fc_statics \<Rightarrow> addr \<Rightarrow> bool" where
  "served p r = (r < length (req_heap p) \<and> success (req_heap p ! r) \<and> op (req_heap p ! r) \<noteq> POP)"

text \<open>
  The same for the flat-combining queue.
\<close>

definition fcq_inv :: "tid \<Rightarrow> 'a FlatCombiningQueue \<times> (QOp, 'a) fc_statics \<Rightarrow> bool" where
  "fcq_inv me sp =
     ((\<forall>r\<in>set (fcq_requests (fst sp)).
          r < length (req_heap (snd sp)) \<and> op (req_heap (snd sp) ! r) = QNONE)
      \<and> (case tls_req (snd sp) me of None \<Rightarrow> True | Some r \<Rightarrow> r \<in> set (fcq_requests (fst sp))))"

definition qserved :: "(QOp, 'a) fc_statics \<Rightarrow> addr \<Rightarrow> bool" where
  "qserved p r = (r < length (req_heap p) \<and> success (req_heap p ! r) \<and> op (req_heap p ! r) \<noteq> DEQ)"

text \<open>
  Sequential specifications of a stack and of a queue (the contents are kept top first,
  respectively front first), and the runs of a list of calls by one thread on each container.
  A call comes with the spurious failures of its weak compare-and-swaps, and for the
  Michael-Scott queue with the fuel of its loop.
\<close>

datatype 'a call = Put 'a | Take

fun lifo :: "'a call list \<Rightarrow> 'a list \<Rightarrow> 'a option list" where
  "lifo [] xs = []"
| "lifo (Put v # cs) xs = lifo cs (v # xs)"
| "lifo (Take # cs) [] = None # lifo cs []"
| "lifo (Take # cs) (x # xs) = Some x # lifo cs xs"

fun fifo :: "'a call list \<Rightarrow> 'a list \<Rightarrow> 'a option list" where
  "fifo [] xs = []"
| "fifo (Put v # cs) xs = fifo cs (xs @ [v])"
| "fifo (Take # cs) [] = None # fifo cs []"
| "fifo (Take # cs) (x # xs) = Some x # fifo cs xs"

definition answer :: "bool \<Rightarrow> 'a \<Rightarrow> 'a option" where
  "answer ok out = (if ok then Some out else None)"

fun sgls_run :: "'a call list \<Rightarrow> 'a \<Rightarrow> 'a SGLStack \<Rightarrow> 'a option list" where
  "sgls_run [] x s = []"
| "sgls_run (Put v # cs) x s = sgls_run cs x (sgls_push v s)"
| "sgls_run (Take # cs) x s =
     (case sgls_pop x s of (ok, x', s') \<Rightarrow> answer ok x' # sgls_run cs x' s')"

fun sglq_run :: "'a call list \<Rightarrow> 'a \<Rightarrow> 'a SGLQueue \<Rightarrow> 'a option list" where
  "sglq_run [] x s = []"
| "sglq_run (Put v # cs) x s = sglq_run cs x (sglq_enqueue v s)"
| "sglq_run (Take # cs) x s =
     (case sglq_dequeue x s of (ok, x', s') \<Rightarrow> answer ok x' # sglq_run cs x' s')"

fun ts_run ::
  "tid \<Rightarrow> ('a call \<times> bool list) list \<Rightarrow> 'a \<Rightarrow> ('a Node, 'z) with_head_scheme
     \<Rightarrow> fault + 'a option list"
where
  "ts_run me [] x st = Inr []"
| "ts_run me ((Put v, sp) # cs) x st = ts_run me cs x (ts_push v sp st)"
| "ts_run me ((Take, sp) # cs) x st =
     (case ts_pop me x sp st of
        Inl f \<Rightarrow> Inl f
      | Inr (ok, x', st') \<Rightarrow> map_sum id ((#) (answer ok x')) (ts_run me cs x' st'))"

fun es_run ::
  "('a call \<times> bool list) list \<Rightarrow> 'a \<Rightarrow> 'a EliminationStack \<Rightarrow> fault + 'a option list"
where
  "es_run [] x st = Inr []"
| "es_run ((Put v, sp) # cs) x st = es_run cs x (es_push v sp st)"
| "es_run ((Take, sp) # cs) x st =
     (case es_pop x sp st of
        Inl f \<Rightarrow> Inl f
      | Inr (ok, x', st') \<Rightarrow> map_sum id ((#) (answer ok x')) (es_run cs x' st'))"

fun msq_run ::
  "tid \<Rightarrow> ('a call \<times> bool list \<times> nat) list \<Rightarrow> 'a \<Rightarrow> 'a MSQueue \<Rightarrow> fault + 'a option list"
where
  "msq_run me [] x st = Inr []"
| "msq_run me ((Put v, sp, fuel) # cs) x st =
     (case enqueue v sp fuel st of Inl f \<Rightarrow> Inl f | Inr st' \<Rightarrow> msq_run me cs x st')"
| "msq_run me ((Take, sp, fuel) # cs) x st =
     (case dequeue me x fuel st of
        Inl f \<Rightarrow> Inl f
      | Inr (ok, x', st') \<Rightarrow> map_sum id ((#) (answer ok x')) (msq_run me cs x' st'))"

fun fcs_run ::
  "tid \<Rightarrow> 'a call list \<Rightarrow> 'a \<Rightarrow> 'a FlatCombiningStack \<times> (Op, 'a::zero) fc_statics
     \<Rightarrow> fault + 'a option list"
where
  "fcs_run me [] x sp = Inr []"
| "fcs_run me (Put v # cs) x sp =
     (case fcs_push me v sp of Inl f \<Rightarrow> Inl f | Inr sp' \<Rightarrow> fcs_run me cs x sp')"
| "fcs_run me (Take # cs) x sp =
     (case fcs_pop me x sp of
        Inl f \<Rightarrow> Inl f
      | Inr (ok, x', sp') \<Rightarrow> map_sum id ((#) (answer ok x')) (fcs_run me cs x' sp'))"

fun fcq_run ::
  "tid \<Rightarrow> 'a call list \<Rightarrow> 'a \<Rightarrow> 'a FlatCombiningQueue \<times> (QOp, 'a::zero) fc_statics
     \<Rightarrow> fault + 'a option list"
where
  "fcq_run me [] x sp = Inr []"
| "fcq_run me (Put v # cs) x sp =
     (case fcq_enqueue me v sp of Inl f \<Rightarrow> Inl f | Inr sp' \<Rightarrow> fcq_run me cs x sp')"
| "fcq_run me (Take # cs) x sp =
     (case fcq_dequeue me x sp of
        Inl f \<Rightarrow> Inl f
      | Inr (ok, x', sp') \<Rightarrow> map_sum id ((#) (answer ok x')) (fcq_run me cs x' sp'))"

text \<open>
  The events an operation logs, and two properties of a log: \<open>read_before_cas\<close> says a value
  is read before the first successful CAS of head; \<open>hp_protocol\<close> says every node is
  dereferenced while the hazard slot holds its address, and deleted only after it was retired.
\<close>

definition outcome ::
  "fault + (bool \<times> 'a \<times> ('n, 'z) mem_scheme) \<Rightarrow> fault + (bool \<times> 'a \<times> event list)" where
  "outcome r = map_sum id (\<lambda>(ok, out, st). (ok, out, trace st)) r"


fun hp_protocol :: "ptr \<Rightarrow> addr list \<Rightarrow> event list \<Rightarrow> bool" where
  "hp_protocol cur rs [] = True"
| "hp_protocol cur rs (Hp_set p # es) = hp_protocol p rs es"
| "hp_protocol cur rs (Hp_clear # es) = hp_protocol None rs es"
| "hp_protocol cur rs (Read_next a # es) = (cur = Some a \<and> hp_protocol cur rs es)"
| "hp_protocol cur rs (Retire a # es) = hp_protocol cur (a # rs) es"
| "hp_protocol cur rs (Delete a # es) = (a \<in> set rs \<and> hp_protocol cur rs es)"
| "hp_protocol cur rs (e # es) = hp_protocol cur rs es"

text \<open>
  Sample states: containers holding one value, a registry whose 128 records are all owned by
  other threads, and the per-class request records of a thread that has used a flat-combining
  container before.
\<close>

definition msq_one :: "int MSQueue" where
  "msq_one = (case enqueue 5 [] 1 MSQueue_init of Inr st \<Rightarrow> st | Inl f \<Rightarrow> MSQueue_init)"

definition es_one :: "int EliminationStack" where
  "es_one = es_push 7 [] (EliminationStack_init [])"

definition ts_one :: "int TreiberStack" where
  "ts_one = ts_push 7 [] TreiberStack_init"

definition ts_exhausted :: "int TreiberStack" where
  "ts_exhausted =
     TreiberStack_init\<lparr>g_hazard_records := map (\<lambda>t. \<lparr>owner = Some t, ptr = None\<rparr>) [1..<129]\<rparr>"

definition thread0_used :: "(Op, int) fc_statics" where
  "thread0_used =
     \<lparr>tls_req = (\<lambda>t. None)(0 := Some 0),
      req_heap = [\<lparr>op = NONE, req_value = 1, success = True\<rparr>]\<rparr>"

definition thread0_qused :: "(QOp, int) fc_statics" where
  "thread0_qused =
     \<lparr>tls_req = (\<lambda>t. None)(0 := Some 0),
      req_heap = [\<lparr>op = QNONE, req_value = 1, success = True\<rparr>]\<rparr>"

text \<open>
  The state an operation ends in.
\<close>

definition final :: "fault + (bool \<times> 'a \<times> 's) \<Rightarrow> 's \<Rightarrow> 's" where
  "final r d = (case r of Inr (ok, out, st) \<Rightarrow> st | Inl f \<Rightarrow> d)"

definition msq_exhausted :: "int MSQueue" where
  "msq_exhausted =
     MSQueue_init\<lparr>g_hazard_records := map (\<lambda>t. \<lparr>owner = Some t, ptr = None\<rparr>) [1..<129]\<rparr>"

definition fcs_pending_pop :: "(Op, int) fc_statics" where
  "fcs_pending_pop =
     \<lparr>tls_req = (\<lambda>t. None)(0 := Some 0),
      req_heap = [\<lparr>op = POP, req_value = 0, success = False\<rparr>]\<rparr>"

definition fcq_pending_deq :: "(QOp, int) fc_statics" where
  "fcq_pending_deq =
     \<lparr>tls_req = (\<lambda>t. None)(0 := Some 0),
      req_heap = [\<lparr>op = DEQ, req_value = 0, success = False\<rparr>]\<rparr>"

text \<open>
  The events by which an iteration of \<open>dequeue\<close> protects and inspects the head node:
  publishing a hazard pointer and reading a \<open>next\<close> field.
\<close>

fun is_protect :: "event \<Rightarrow> bool" where
  "is_protect (Hp_set p) = True"
| "is_protect (Read_next a) = True"
| "is_protect e = False"

text \<open>
  The request record of thread 0 after it has used a first flat-combining container and then
  called push(5), respectively enqueue(5), on a second one.
\<close>

definition thread0_pending :: "(Op, int) fc_statics" where
  "thread0_pending =
     \<lparr>tls_req = (\<lambda>t. None)(0 := Some 0),
      req_heap = [\<lparr>op = PUSH, req_value = 5, success = True\<rparr>]\<rparr>"

definition thread0_qpending :: "(QOp, int) fc_statics" where
  "thread0_qpending =
     \<lparr>tls_req = (\<lambda>t. None)(0 := Some 0),
      req_heap = [\<lparr>op = ENQ, req_value = 5, success = True\<rparr>]\<rparr>"



section \<open>The condition variable\<close>

lemma others_seq: "seq (others ks c) = seq c + of_nat (length ks)"
  by (induction ks c rule: others.induct) (simp_all add: notify_one_def notify_all_def cv_notify_def)

lemma others_append: "others (ks @ ls) c = others ls (others ks c)"
  by (induction ks c rule: others.induct) simp_all

lemma cv_wait_pred_Some:
  "cv_wait_pred s sched c = Some (c', rest) \<Longrightarrow>
     \<exists>k<length sched. rest = drop (Suc k) sched \<and> c' = others (concat (take (Suc k) sched)) c
        \<and> seq c' \<noteq> s \<and> (\<forall>j<k. seq (others (concat (take (Suc j) sched)) c) = s)"
proof (induction sched arbitrary: c)
  case Nil
  then show ?case by simp
next
  case (Cons ks sched)
  show ?case
  proof (cases "seq (others ks c) \<noteq> s")
    case True
    with Cons.prems show ?thesis by (auto simp: Let_def intro!: exI[of _ 0])
  next
    case False
    with Cons.prems have "cv_wait_pred s sched (others ks c) = Some (c', rest)"
      by (simp add: Let_def)
    from Cons.IH[OF this] obtain k where k: "k < length sched" "rest = drop (Suc k) sched"
      "c' = others (concat (take (Suc k) sched)) (others ks c)" "seq c' \<noteq> s"
      "\<forall>j<k. seq (others (concat (take (Suc j) sched)) (others ks c)) = s" by blast
    have "\<forall>j<Suc k. seq (others (concat (take (Suc j) (ks # sched))) c) = s"
    proof (intro allI impI)
      fix j assume "j < Suc k"
      then show "seq (others (concat (take (Suc j) (ks # sched))) c) = s"
        using False k(5) by (cases j) (auto simp: others_append)
    qed
    with k show ?thesis
      by (intro exI[of _ "Suc k"]) (simp add: others_append)
  qed
qed

lemma cv_wait_pred_None:
  "cv_wait_pred s sched c = None \<longleftrightarrow>
     (\<forall>j<length sched. seq (others (concat (take (Suc j) sched)) c) = s)"
proof (induction sched arbitrary: c)
  case Nil
  then show ?case by simp
next
  case (Cons ks sched)
  show ?case
    apply (simp add: Let_def Cons.IH others_append)
    apply (auto simp: less_Suc_eq_0_disj others_append)
    done
qed

lemma notify_seq:
  "seq (notify_one c) = seq c + 1" "seq (notify_all c) = seq c + 1"
  "cv (notify_one c) = cv c @ [(Wake_one, seq c + 1)]"
  "cv (notify_all c) = cv c @ [(Wake_all, seq c + 1)]"
  by (simp_all add: notify_one_def notify_all_def cv_notify_def)

lemma word_inc_less: "(x::'w::len word) \<noteq> - 1 \<Longrightarrow> x < x + 1"
proof -
  assume "x \<noteq> - 1"
  then have "1 + x \<noteq> 0"
    by (metis add.commute add.right_inverse add_left_cancel)
  then have "unat (1 + x) = Suc (unat x)" by (rule unatSuc)
  then show ?thesis by (simp add: word_less_nat_alt add.commute)
qed

text \<open>
  C7, as the code has it. \<open>notify_one\<close> and \<open>notify_all\<close> each add one to \<open>seq\<close> in the
  arithmetic of \<open>size_t\<close>, and the wake-up they request from the underlying condition
  variable is issued with the new value already stored. \<open>seq\<close> grows with every notification
  except at the largest value of \<open>size_t\<close>, where it wraps to 0. \<open>wait(lock)\<close> returns
  only at an evaluation of its predicate that finds \<open>seq\<close> different from the value sampled
  on entry: it returns at the first such evaluation, every earlier one having found the
  sampled value, it is still blocked when every evaluation finds the sampled value, and
  spurious wake-ups alone never make it return.
\<close>

theorem CVNoSpurious_seq_and_wait:
  fixes c :: "'w::len CVNoSpurious"
  shows "seq (notify_one c) = seq c + 1 \<and> seq (notify_all c) = seq c + 1
    \<and> cv (notify_one c) = cv c @ [(Wake_one, seq c + 1)]
    \<and> cv (notify_all c) = cv c @ [(Wake_all, seq c + 1)]
    \<and> (seq c \<noteq> - 1 \<longrightarrow> seq c < seq (notify_one c) \<and> seq c < seq (notify_all c))
    \<and> (seq c = - 1 \<longrightarrow> seq (notify_one c) = 0 \<and> seq (notify_all c) = 0)
    \<and> (\<forall>c' rest. wait sched c = Some (c', rest) \<longrightarrow>
          seq c' \<noteq> seq c \<and>
          (\<exists>k<length sched. rest = drop (Suc k) sched
              \<and> c' = others (concat (take (Suc k) sched)) c
              \<and> (\<forall>j<k. seq (others (concat (take (Suc j) sched)) c) = seq c)))
    \<and> (wait sched c = None \<longleftrightarrow>
          (\<forall>j<length sched. seq (others (concat (take (Suc j) sched)) c) = seq c))
    \<and> wait (replicate n []) c = None"
proof -
  have a: "\<forall>c' rest. wait sched c = Some (c', rest) \<longrightarrow>
          seq c' \<noteq> seq c \<and>
          (\<exists>k<length sched. rest = drop (Suc k) sched
              \<and> c' = others (concat (take (Suc k) sched)) c
              \<and> (\<forall>j<k. seq (others (concat (take (Suc j) sched)) c) = seq c))"
    using cv_wait_pred_Some [of "seq c" sched c] by (auto simp: wait_def)
  have b: "wait sched c = None \<longleftrightarrow>
          (\<forall>j<length sched. seq (others (concat (take (Suc j) sched)) c) = seq c)"
    by (simp add: wait_def cv_wait_pred_None)
  have "cv_wait_pred (seq c) (replicate n []) c = None"
    by (induction n) (simp_all add: Let_def)
  then have d: "wait (replicate n []) c = None"
    by (simp add: wait_def)
  show ?thesis
    using a b d by (simp add: notify_seq word_inc_less)
qed

theorem CVNoSpurious_seq_and_wait_witness:
  "seq \<lparr>seq = (5 :: 64 word), cv = []\<rparr> \<noteq> - 1
   \<and> seq \<lparr>seq = (5 :: 64 word), cv = []\<rparr> < seq (notify_one \<lparr>seq = (5 :: 64 word), cv = []\<rparr>)
   \<and> wait [[], [], [Wake_one], []] \<lparr>seq = (5 :: 64 word), cv = []\<rparr>
        = Some (\<lparr>seq = 6, cv = [(Wake_one, 6)]\<rparr>, [[]])
   \<and> seq \<lparr>seq = (6 :: 64 word), cv = [(Wake_one, 6)]\<rparr> \<noteq> seq \<lparr>seq = (5 :: 64 word), cv = []\<rparr>
   \<and> seq \<lparr>seq = (- 1 :: 64 word), cv = []\<rparr> = - 1
   \<and> seq (notify_all \<lparr>seq = (- 1 :: 64 word), cv = []\<rparr>) = 0"
  using CVNoSpurious_seq_and_wait [of "\<lparr>seq = (5 :: 64 word), cv = []\<rparr>" "[[], [], [Wake_one], []]" 0]
        CVNoSpurious_seq_and_wait [of "\<lparr>seq = (- 1 :: 64 word), cv = []\<rparr>" "[]" 0]
  by (simp add: wait_def notify_one_def cv_notify_def)

text \<open>
  C7 as stated says that \<open>seq\<close> never decreases. With \<open>size_t\<close> of 64 bits and \<open>seq\<close>
  at its largest value, \<open>notify_one\<close> leaves \<open>seq\<close> smaller than it was.
\<close>

theorem CVNoSpurious_seq_wraps:
  "\<not> seq \<lparr>seq = (- 1 :: 64 word), cv = []\<rparr>
       \<le> seq (notify_one \<lparr>seq = (- 1 :: 64 word), cv = []\<rparr>)"
  by (simp add: notify_one_def cv_notify_def)

section \<open>The retired list\<close>

lemma lookup_update: "lookup (h[p := c]) a = (if a = p \<and> p < length h then c else lookup h a)"
  by (auto simp: lookup_def)

lemma length_free_all [simp]: "length (free_all ps h) = length h"
  by (induction ps arbitrary: h) simp_all

lemma lookup_free_all: "lookup (free_all ps h) a = (if a \<in> set ps then None else lookup h a)"
  by (induction ps arbitrary: h) (auto simp: lookup_update, auto simp: lookup_def)

lemma scan_loop_eq:
  "scan_loop f hp ps kept st =
     (kept @ filter (\<lambda>p. \<not> f \<and> p \<in> set hp) ps,
      st\<lparr>heap := free_all (filter (\<lambda>p. f \<or> p \<notin> set hp) ps) (heap st),
         trace := trace st @ map Delete (filter (\<lambda>p. f \<or> p \<notin> set hp) ps)\<rparr>)"
proof (induction ps arbitrary: kept st)
  case Nil
  then show ?case by simp
next
  case (Cons p ps)
  show ?case
    apply (simp only: scan_loop.simps Cons.IH)
    apply (auto simp: is_hazard_def delete_node_def log_def)
    done
qed

lemma set_collect: "set (collect_hazard_pointers rs) = {a. \<exists>r\<in>set rs. ptr r = Some a}"
  by (induction rs) (auto split: option.splits)

lemma scan_eq:
  "scan f st =
     st\<lparr>heap := free_all (filter (\<lambda>p. f \<or> p \<notin> hazardous st) (retired st)) (heap st),
        trace := trace st @ map Delete (filter (\<lambda>p. f \<or> p \<notin> hazardous st) (retired st)),
        retired := filter (\<lambda>p. \<not> f \<and> p \<in> hazardous st) (retired st)\<rparr>"
  by (simp add: scan_def scan_loop_eq Let_def hazardous_def set_collect)

text \<open>
  C4. \<open>collect_hazard_pointers\<close> returns the non-null \<open>ptr\<close> values of the hazard
  records. \<open>retire(node)\<close> appends the node to the retired list; while the list is shorter
  than the threshold of 64 it does nothing else, and once the list has reached the threshold
  it runs a non-forced scan. A non-forced scan keeps, in order, the retired nodes whose
  address is in the snapshot and deletes the others, each once and in order; a forced scan
  (\<open>force_reclaim\<close>) deletes every retired node.
\<close>

theorem retire_scans_at_threshold:
  fixes st :: "('n, 'z) mem_scheme"
  shows
  "set (collect_hazard_pointers (g_hazard_records st)) = hazardous st
   \<and> (length (retired st) + 1 < 64 \<longrightarrow>
        retire node st = st\<lparr>retired := retired st @ [node], trace := trace st @ [Retire node]\<rparr>)
   \<and> (length (retired st) + 1 \<ge> 64 \<longrightarrow>
        retire node st =
          scan False (st\<lparr>retired := retired st @ [node], trace := trace st @ [Retire node]\<rparr>))
   \<and> retired (scan False st) = filter (\<lambda>p. p \<in> hazardous st) (retired st)
   \<and> trace (scan False st) = trace st @ map Delete (filter (\<lambda>p. p \<notin> hazardous st) (retired st))
   \<and> (\<forall>a. lookup (heap (scan False st)) a =
          (if a \<in> set (retired st) \<and> a \<notin> hazardous st then None else lookup (heap st) a))
   \<and> force_reclaim st = scan True st
   \<and> retired (scan True st) = []
   \<and> trace (scan True st) = trace st @ map Delete (retired st)
   \<and> (\<forall>a. lookup (heap (scan True st)) a =
          (if a \<in> set (retired st) then None else lookup (heap st) a))"
  by (simp add: threshold_def set_collect retire_def log_def force_reclaim_def scan_eq
        lookup_free_all)
     (simp add: hazardous_def)

lemma filter_5_upt_63: "filter (\<lambda>p. p = 5) [0..<63] = [5::nat]"
  by code_simp

theorem retire_scans_at_threshold_witness:
  "length (retired mem_63_retired) + 1 \<ge> 64
   \<and> retired (retire 63 mem_63_retired) = [5]
   \<and> lookup (heap (retire 63 mem_63_retired)) 5 = Some ()
   \<and> lookup (heap (retire 63 mem_63_retired)) 63 = None
   \<and> length (retired (mem_63_retired\<lparr>retired := [3, 5]\<rparr>)) + 1 < 64
   \<and> retired (retire 7 (mem_63_retired\<lparr>retired := [3, 5]\<rparr>)) = [3, 5, 7]
   \<and> heap (retire 7 (mem_63_retired\<lparr>retired := [3, 5]\<rparr>)) = heap mem_63_retired"
  using retire_scans_at_threshold [of mem_63_retired 63]
        retire_scans_at_threshold
          [of "mem_63_retired\<lparr>retired := retired mem_63_retired @ [63],
                               trace := trace mem_63_retired @ [Retire 63]\<rparr>" 0]
        retire_scans_at_threshold [of "mem_63_retired\<lparr>retired := [3, 5]\<rparr>" 7]
  by (simp add: mem_63_retired_def hazardous_def lookup_def filter_5_upt_63)

section \<open>The scan of the arena\<close>

lemma slots_null_iff: "slots_null ss \<longleftrightarrow> (\<forall>i<length ss. ss ! i = None)"
  by (induction ss) (auto simp: less_Suc_eq_0_disj)

section \<open>Linked chains, hazard records and the Treiber push\<close>

lemma chain_addr_lt: "chain h p axs \<Longrightarrow> a \<in> fst ` set axs \<Longrightarrow> a < length h"
  by (induction h p axs rule: chain.induct) (auto simp: lookup_def split: option.splits if_splits)

lemma chain_cong:
  "chain h p axs \<Longrightarrow> (\<forall>a\<in>fst ` set axs. lookup h' a = lookup h a) \<Longrightarrow> chain h' p axs"
  by (induction h p axs rule: chain.induct) (auto split: option.splits)

lemma lookup_append: "a < length h \<Longrightarrow> lookup (h @ cs) a = lookup h a"
  by (simp add: lookup_def nth_append)

lemma lookup_append_new [simp]: "lookup (h @ [c]) (length h) = c"
  by (simp add: lookup_def)

lemma chain_append: "chain h p axs \<Longrightarrow> chain (h @ cs) p axs"
  by (rule chain_cong, assumption) (auto simp: lookup_append dest: chain_addr_lt)

lemma find_owner_ptr_update [simp]:
  "find_owner w (recs[i := (recs ! i)\<lparr>ptr := p\<rparr>]) = find_owner w recs"
proof (induction recs arbitrary: i)
  case Nil
  then show ?case by simp
next
  case (Cons r recs)
  then show ?case by (cases i) simp_all
qed

lemma find_owner_lt: "find_owner w recs = Some i \<Longrightarrow> i < length recs \<and> owner (recs ! i) = w"
  by (induction recs arbitrary: i) (auto split: if_splits)

lemma find_owner_claim:
  "find_owner None recs = Some i \<Longrightarrow>
     find_owner (Some me) (recs[i := (recs ! i)\<lparr>owner := Some me\<rparr>]) \<noteq> None"
  by (induction recs arbitrary: i) (auto split: if_splits)

lemma acquire_ok:
  assumes "hp_available me st"
  shows "\<exists>i recs. acquire_hazard_record me st = Inr (i, st\<lparr>g_hazard_records := recs\<rparr>)
        \<and> map ptr recs = map ptr (g_hazard_records st)
        \<and> find_owner (Some me) recs \<noteq> None"
proof (cases "find_owner (Some me) (g_hazard_records st)")
  case (Some i)
  then have "acquire_hazard_record me st = Inr (i, st\<lparr>g_hazard_records := g_hazard_records st\<rparr>)"
    by (simp add: acquire_hazard_record_def)
  with Some show ?thesis by force
next
  case None
  with assms obtain i where i: "find_owner None (g_hazard_records st) = Some i"
    by (auto simp: hp_available_def)
  let ?recs = "(g_hazard_records st)[i := (g_hazard_records st ! i)\<lparr>owner := Some me\<rparr>]"
  have "acquire_hazard_record me st = Inr (i, st\<lparr>g_hazard_records := ?recs\<rparr>)"
    using None i by (simp add: acquire_hazard_record_def)
  moreover have "map ptr ?recs = map ptr (g_hazard_records st)"
    using find_owner_lt[OF i] by (simp add: map_update list_update_same_conv)
  moreover have "find_owner (Some me) ?recs \<noteq> None"
    by (rule find_owner_claim[OF i])
  ultimately show ?thesis by blast
qed

lemma acquire_abort:
  "\<not> hp_available me st \<Longrightarrow> acquire_hazard_record me st = Inl Abort"
  by (auto simp: acquire_hazard_record_def hp_available_def split: option.splits)

lemma ts_push_loop_done:
  "head st = old \<Longrightarrow> sp = [] \<or> \<not> hd sp \<Longrightarrow>
     ts_push_loop sp n old st =
       log (Cas_head old (Some n) True) ((store_next n old st)\<lparr>head := Some n\<rparr>)"
  by (subst ts_push_loop.simps)
     (auto simp: cas_weak_head_def store_next_def log_def Let_def split: list.splits bool.splits)

lemma ts_push_loop_retry:
  "head st = old \<Longrightarrow>
     ts_push_loop (True # sp) n old st =
       ts_push_loop sp n old (log (Cas_head old (Some n) False) (store_next n old st))"
  by (subst ts_push_loop.simps)
     (simp add: cas_weak_head_def store_next_def log_def Let_def)

lemma ts_push_loop_fields:
  "head st = old \<Longrightarrow> lookup (heap st) n = Some nd \<Longrightarrow>
     head (ts_push_loop sp n old st) = Some n
     \<and> heap (ts_push_loop sp n old st) = (heap st)[n := Some (nd\<lparr>node_next := old\<rparr>)]
     \<and> g_hazard_records (ts_push_loop sp n old st) = g_hazard_records st
     \<and> retired (ts_push_loop sp n old st) = retired st"
proof (induction sp arbitrary: st nd)
  case Nil
  then show ?case
    by (simp add: ts_push_loop_done store_next_def log_def)
next
  case (Cons b sp)
  show ?case
  proof (cases b)
    case True
    let ?st2 = "log (Cas_head old (Some n) False) (store_next n old st)"
    have "head ?st2 = old" "lookup (heap ?st2) n = Some (nd\<lparr>node_next := old\<rparr>)"
      using Cons.prems by (auto simp: store_next_def log_def lookup_def split: if_splits)
    from Cons.IH[OF this] show ?thesis
      using Cons.prems True by (simp add: ts_push_loop_retry store_next_def log_def)
  next
    case False
    then show ?thesis using Cons.prems
      by (simp add: ts_push_loop_done store_next_def log_def)
  qed
qed

lemma ts_push_inv:
  assumes "ts_inv me st axs"
  shows "ts_inv me (ts_push v sp st) ((length (heap st), v) # axs)"
proof -
  let ?n = "length (heap st)"
  let ?st2 = "store_next ?n None (snd (new_Node v st))"
  have h2: "head ?st2 = head st" "lookup (heap ?st2) ?n = Some \<lparr>node_value = v, node_next = None\<rparr>"
    "heap ?st2 = heap st @ [Some \<lparr>node_value = v, node_next = None\<rparr>]"
    "g_hazard_records ?st2 = g_hazard_records st" "retired ?st2 = retired st"
    by (simp_all add: store_next_def new_Node_def lookup_def)
  have eq: "ts_push v sp st = ts_push_loop sp ?n (head st) ?st2"
    by (simp add: ts_push_def new_Node_def Let_def store_next_def)
  note f = ts_push_loop_fields[OF h2(1) h2(2), of sp]
  have lt: "\<And>a. a \<in> fst ` set axs \<Longrightarrow> a < ?n"
    using assms chain_addr_lt unfolding ts_inv_def by blast
  have c: "chain (heap (ts_push v sp st)) (head st) axs"
    apply (rule chain_cong[of "heap st"])
    using assms apply (simp add: ts_inv_def)
    using lt by (auto simp: eq f h2 lookup_update lookup_append)
  show ?thesis
    using assms c lt unfolding ts_inv_def
    by (auto simp: eq f h2 lookup_def hp_available_def less_Suc_eq)
qed

section \<open>Retirement and the Treiber pop\<close>

lemma retire_eq:
  "retire a st =
     st\<lparr>heap := free_all (retire_dels a st) (heap st),
        retired := retire_kept a st,
        trace := trace st @ Retire a # map Delete (retire_dels a st)\<rparr>"
  by (simp add: retire_def scan_eq log_def retire_dels_def retire_kept_def hazardous_def)

lemma retire_sets:
  "set (retire_dels a st) \<subseteq> set (retired st) \<union> {a}"
  "set (retire_kept a st) \<subseteq> set (retired st) \<union> {a}"
  by (auto simp: retire_dels_def retire_kept_def)

lemma hp_available_upd [simp]:
  "hp_available me (hp_set i p st) = hp_available me st"
  "hp_available me (hp_clear i st) = hp_available me st"
  "hp_available me (log e st) = hp_available me st"
  by (simp_all add: hp_available_def hp_set_def hp_clear_def log_def)

lemma hp_available_fields [simp]:
  "hp_available me (st\<lparr>heap := h\<rparr>) = hp_available me st"
  "hp_available me (st\<lparr>retired := r\<rparr>) = hp_available me st"
  "hp_available me (st\<lparr>trace := t\<rparr>) = hp_available me st"
  by (simp_all add: hp_available_def)

lemma hp_available_head [simp]: "hp_available me (st\<lparr>head := p\<rparr>) = hp_available me st"
  by (simp add: hp_available_def)

lemma hp_available_tail [simp]: "hp_available me (st\<lparr>tail := p\<rparr>) = hp_available me st"
  by (simp add: hp_available_def)

lemma ts_pop_loop_empty:
  "head st = None \<Longrightarrow> ts_pop_loop sp hpo st = Inr (None, hp_clear hpo st)"
  by (subst ts_pop_loop.simps) simp

lemma ts_pop_loop_done:
  "head st = Some a \<Longrightarrow> lookup (heap st) a = Some nd \<Longrightarrow> sp = [] \<or> \<not> hd sp \<Longrightarrow>
     ts_pop_loop sp hpo st =
       Inr (Some a, log (Cas_head (Some a) (node_next nd) True)
                      ((log (Read_next a) (hp_set hpo (Some a) st))\<lparr>head := node_next nd\<rparr>))"
  by (subst ts_pop_loop.simps)
     (auto simp: cas_weak_head_def hp_set_def log_def Let_def split: list.splits bool.splits)

lemma ts_pop_loop_retry:
  "head st = Some a \<Longrightarrow> lookup (heap st) a = Some nd \<Longrightarrow>
     ts_pop_loop (True # sp) hpo st =
       ts_pop_loop sp hpo
         (log (Cas_head (Some a) (node_next nd) False) (log (Read_next a) (hp_set hpo (Some a) st)))"
  by (subst ts_pop_loop.simps)
     (simp add: cas_weak_head_def hp_set_def log_def Let_def)

lemma ts_pop_loop_fields:
  "head st = Some a \<Longrightarrow> lookup (heap st) a = Some nd \<Longrightarrow>
     \<exists>st'. ts_pop_loop sp hpo st = Inr (Some a, st') \<and> head st' = node_next nd
        \<and> heap st' = heap st \<and> retired st' = retired st
        \<and> hp_available me st' = hp_available me st"
proof (induction sp arbitrary: st)
  case Nil
  then show ?case
    by (simp add: ts_pop_loop_done) (simp add: log_def hp_set_def hp_available_def)
next
  case (Cons b sp)
  show ?case
  proof (cases b)
    case True
    let ?st2 = "log (Cas_head (Some a) (node_next nd) False) (log (Read_next a) (hp_set hpo (Some a) st))"
    have "head ?st2 = Some a" "lookup (heap ?st2) a = Some nd"
      using Cons.prems by (auto simp: hp_set_def log_def)
    from Cons.IH[OF this] show ?thesis
      using Cons.prems True
      by (simp add: ts_pop_loop_retry) (simp add: log_def hp_set_def)
  next
    case False
    then show ?thesis using Cons.prems
      by (simp add: ts_pop_loop_done) (simp add: log_def hp_set_def hp_available_def)
  qed
qed

lemma ts_pop_empty:
  assumes "ts_inv me st []"
  shows "\<exists>st'. ts_pop me out sp st = Inr (False, out, st') \<and> ts_inv me st' []"
proof -
  from assms have av: "hp_available me st" and hd: "head st = None"
    and r: "\<forall>a\<in>set (retired st). a < length (heap st)"
    by (auto simp: ts_inv_def)
  from acquire_ok[OF av] obtain i recs where
    acq: "acquire_hazard_record me st = Inr (i, st\<lparr>g_hazard_records := recs\<rparr>)"
    and own: "find_owner (Some me) recs \<noteq> None" by blast
  let ?st0 = "st\<lparr>g_hazard_records := recs\<rparr>"
  have "ts_pop me out sp st = Inr (False, out, hp_clear i (hp_clear i ?st0))"
    using hd by (simp add: ts_pop_def acq ts_pop_loop_empty)
  moreover have "ts_inv me (hp_clear i (hp_clear i ?st0)) []"
    using hd r own by (simp add: ts_inv_def) (simp add: hp_clear_def log_def hp_available_def)
  ultimately show ?thesis by blast
qed

lemma ts_pop_nonempty:
  assumes "ts_inv me st ((a, x) # axs)"
  shows "\<exists>st'. ts_pop me out sp st = Inr (True, x, st') \<and> ts_inv me st' axs"
proof -
  from assms have av: "hp_available me st" and hd: "head st = Some a"
    and r: "\<forall>b\<in>set (retired st). b \<notin> fst ` set ((a, x) # axs) \<and> b < length (heap st)"
    and d: "distinct (map fst ((a, x) # axs))"
    by (auto simp: ts_inv_def)
  from assms obtain nd where nd: "lookup (heap st) a = Some nd" "node_value nd = x"
    and ch: "chain (heap st) (node_next nd) axs"
    by (auto simp: ts_inv_def split: option.splits)
  from acquire_ok[OF av] obtain i recs where
    acq: "acquire_hazard_record me st = Inr (i, st\<lparr>g_hazard_records := recs\<rparr>)"
    and own: "find_owner (Some me) recs \<noteq> None" by blast
  let ?st0 = "st\<lparr>g_hazard_records := recs\<rparr>"
  have av0: "hp_available me ?st0" using own by (simp add: hp_available_def)
  have "head ?st0 = Some a" "lookup (heap ?st0) a = Some nd" using hd nd by simp_all
  from ts_pop_loop_fields[OF this, of sp i me] obtain st1 where
    l: "ts_pop_loop sp i ?st0 = Inr (Some a, st1)" and h1: "head st1 = node_next nd"
    and hp1: "heap st1 = heap st" and r1: "retired st1 = retired st"
    and av1: "hp_available me st1"
    using av0 by auto
  let ?st3 = "hp_clear i (log (Read_value a) st1)"
  let ?st5 = "hp_clear i (retire a ?st3)"
  have res: "ts_pop me out sp st = Inr (True, x, ?st5)"
    using nd by (simp add: ts_pop_def acq l hp1 Let_def)
  have f3: "head ?st3 = node_next nd" "heap ?st3 = heap st" "retired ?st3 = retired st"
    "hp_available me ?st3"
    using h1 hp1 r1 av1 by (simp_all add: hp_clear_def log_def hp_available_def)
  have alt: "a < length (heap st)" using nd(1) by (auto simp: lookup_def split: if_splits)
  have notin: "\<And>b. b \<in> fst ` set axs \<Longrightarrow> b \<notin> set (retire_dels a ?st3)"
    using retire_sets(1)[of a ?st3] r d f3(3) by (auto simp: image_iff)
  have c5: "chain (heap ?st5) (head ?st5) axs"
    apply (rule chain_cong[of "heap st"])
    using ch f3 apply (simp add: retire_eq hp_clear_def log_def)
    using notin f3 by (auto simp: retire_eq hp_clear_def log_def lookup_free_all)
  have r5: "set (retired ?st5) \<subseteq> set (retired st) \<union> {a}"
    using retire_sets(2)[of a ?st3] f3(3) by (simp add: retire_eq hp_clear_def log_def)
  have "ts_inv me ?st5 axs"
    unfolding ts_inv_def
  proof (intro conjI ballI)
    show "chain (heap ?st5) (head ?st5) axs" by (rule c5)
    show "distinct (map fst axs)" using d by simp
    show "hp_available me ?st5" using f3(4)
      by (simp add: retire_eq)
  next
    fix b assume "b \<in> set (retired ?st5)"
    with r5 have "b \<in> set (retired st) \<union> {a}" by blast
    then show "b \<notin> fst ` set axs" using r d by (auto simp: image_iff)
  next
    fix b assume "b \<in> set (retired ?st5)"
    with r5 have "b \<in> set (retired st) \<union> {a}" by blast
    then show "b < length (heap ?st5)" using r alt f3(2)
      by (auto simp: retire_eq hp_clear_def log_def)
  qed
  with res show ?thesis by blast
qed

section \<open>The elimination arena\<close>

lemma no_smr_refl [simp]: "no_smr st st"
  by (simp add: no_smr_def)

lemma no_smr_trans: "no_smr st st1 \<Longrightarrow> no_smr st1 st2 \<Longrightarrow> no_smr st st2"
  by (auto simp: no_smr_def)

lemma no_smr_rng [simp]: "no_smr st (st'\<lparr>rng := r\<rparr>) = no_smr st st'"
  "no_smr st (st'\<lparr>arena := ar\<rparr>) = no_smr st st'"
  "no_smr st (st'\<lparr>head := p\<rparr>) = no_smr st st'"
  "no_smr st (st'\<lparr>heap := h\<rparr>) = no_smr st st'"
  by (simp_all add: no_smr_def)

lemma no_smr_log: "hp_free e \<Longrightarrow> no_smr st st' \<Longrightarrow> no_smr st (log e st')"
  by (auto simp: no_smr_def log_def)

lemma random_slot_eq: "\<exists>r. random_slot st = (fst (random_slot st), st\<lparr>rng := r\<rparr>)"
  by (auto simp: random_slot_def split: list.splits intro: exI[of _ "[]"])

lemma random_slot_lt: "fst (random_slot st) < ELIM_ARRAY_SIZE"
  by (auto simp: random_slot_def ELIM_ARRAY_SIZE_def split: list.splits)

lemma try_elim_pop_loop_props:
  "try_elim_pop_loop k out st = Inr (ok, out', st') \<Longrightarrow>
     no_smr st st' \<and> (\<not> ok \<longrightarrow> out' = out)"
proof (induction k arbitrary: st)
  case 0
  then show ?case by simp
next
  case (Suc k)
  obtain r where rs: "random_slot st = (fst (random_slot st), st\<lparr>rng := r\<rparr>)"
    using random_slot_eq by blast
  let ?idx = "fst (random_slot st)"
  let ?st2 = "st\<lparr>rng := r, arena := (arena st)[?idx := None]\<rparr>"
  show ?case
  proof (cases "arena st ! ?idx")
    case None
    with Suc.prems rs have "try_elim_pop_loop k out ?st2 = Inr (ok, out', st')"
      by (simp add: arena_exchange_def Let_def split: prod.splits)
    from Suc.IH[OF this] show ?thesis by (simp add: no_smr_def)
  next
    case (Some a)
    with Suc.prems rs show ?thesis
      by (auto simp: arena_exchange_def Let_def delete_node_def no_smr_def log_def
               split: prod.splits option.splits)
  qed
qed

lemma replicate_update_same [simp]: "(replicate n x)[i := x] = replicate n x"
proof (induction n arbitrary: i)
  case 0
  then show ?case by simp
next
  case (Suc n)
  then show ?case by (cases i) simp_all
qed

lemma try_elim_pop_loop_null:
  "arena st = replicate ELIM_ARRAY_SIZE None \<Longrightarrow>
     \<exists>r. try_elim_pop_loop k out st = Inr (False, out, st\<lparr>rng := r\<rparr>)"
proof (induction k arbitrary: st)
  case 0
  show ?case by (auto intro: exI[of _ "rng st"])
next
  case (Suc k)
  obtain r where rs: "random_slot st = (fst (random_slot st), st\<lparr>rng := r\<rparr>)"
    using random_slot_eq by blast
  let ?idx = "fst (random_slot st)"
  have lt: "?idx < ELIM_ARRAY_SIZE" by (rule random_slot_lt)
  have same: "st\<lparr>rng := r, arena := replicate ELIM_ARRAY_SIZE None\<rparr> = st\<lparr>rng := r\<rparr>"
    by (subst Suc.prems[symmetric]) simp
  have "try_elim_pop_loop (Suc k) out st =
          try_elim_pop_loop k out (st\<lparr>rng := r, arena := replicate ELIM_ARRAY_SIZE None\<rparr>)"
    apply (simp add: Let_def split: prod.splits)
    using rs lt Suc.prems by (auto simp: arena_exchange_def)
  then have e: "try_elim_pop_loop (Suc k) out st = try_elim_pop_loop k out (st\<lparr>rng := r\<rparr>)"
    by (simp only: same)
  have "arena (st\<lparr>rng := r\<rparr>) = replicate ELIM_ARRAY_SIZE None" using Suc.prems by simp
  from Suc.IH[OF this] show ?case unfolding e by auto
qed

lemma spin_wait_parked: "arena st ! idx = Some n \<Longrightarrow> \<not> spin_wait k idx n st"
  by (induction k) (simp_all add: Let_def)

lemma try_elim_push_loop_null:
  "arena st = replicate ELIM_ARRAY_SIZE None \<Longrightarrow> k > 0 \<Longrightarrow>
     \<exists>r. try_elim_push_loop k n st = (False, Some n, st\<lparr>rng := r\<rparr>)"
proof -
  assume a: "arena st = replicate ELIM_ARRAY_SIZE None" and k: "k > 0"
  obtain k' where k': "k = Suc k'" using k by (cases k) auto
  obtain r where rs: "random_slot st = (fst (random_slot st), st\<lparr>rng := r\<rparr>)"
    using random_slot_eq by blast
  let ?idx = "fst (random_slot st)"
  have lt: "?idx < ELIM_ARRAY_SIZE" by (rule random_slot_lt)
  let ?st2 = "st\<lparr>rng := r, arena := (arena st)[?idx := Some n]\<rparr>"
  have c1: "arena_cas ?idx None (Some n) (st\<lparr>rng := r\<rparr>) = (True, ?st2)"
    using a lt by (simp add: arena_cas_def)
  have p: "arena ?st2 ! ?idx = Some n" using a lt by simp
  have same: "st\<lparr>rng := r, arena := replicate ELIM_ARRAY_SIZE None\<rparr> = st\<lparr>rng := r\<rparr>"
    by (subst a[symmetric]) simp
  have "arena_cas ?idx (Some n) None ?st2 =
          (True, st\<lparr>rng := r, arena := replicate ELIM_ARRAY_SIZE None\<rparr>)"
    using a lt by (simp add: arena_cas_def)
  then have c2: "arena_cas ?idx (Some n) None ?st2 = (True, st\<lparr>rng := r\<rparr>)"
    by (simp only: same)
  have "try_elim_push_loop k n st = (False, Some n, st\<lparr>rng := r\<rparr>)"
    unfolding k'
    apply (simp add: Let_def try_elim_push_offer_def try_elim_push_wait_def split: prod.splits)
    using rs c1 c2 spin_wait_parked[OF p] by auto
  then show ?thesis by blast
qed

section \<open>The elimination stack\<close>

lemma es_push_loop_done:
  "sp = [] \<or> \<not> hd sp \<Longrightarrow>
     es_push_loop sp c n st =
       log (Cas_head (head st) (Some n) True) ((store_next n (head st) st)\<lparr>head := Some n\<rparr>)"
  by (subst es_push_loop.simps)
     (auto simp: cas_weak_head_def store_next_def log_def Let_def split: list.splits bool.splits)

lemma es_push_loop_retry:
  "es_push_loop (True # sp) c n st =
     (let st2 = log (Cas_head (head st) (Some n) False) (store_next n (head st) st)
      in if Suc c \<ge> CAS_THRESHOLD
         then (let (eliminated, n', st3) = try_elim_push n st2
               in if eliminated then st3 else es_push_loop sp 0 n st3)
         else es_push_loop sp (Suc c) n st2)"
  by (subst es_push_loop.simps)
     (simp add: cas_weak_head_def store_next_def log_def Let_def)

lemma es_push_loop_fields:
  "arena st = replicate ELIM_ARRAY_SIZE None \<Longrightarrow> lookup (heap st) n = Some nd \<Longrightarrow>
     head (es_push_loop sp c n st) = Some n
     \<and> heap (es_push_loop sp c n st) = (heap st)[n := Some (nd\<lparr>node_next := head st\<rparr>)]
     \<and> arena (es_push_loop sp c n st) = replicate ELIM_ARRAY_SIZE None"
proof (induction sp arbitrary: st nd c)
  case Nil
  then show ?case
    by (simp add: es_push_loop_done store_next_def log_def)
next
  case (Cons b sp)
  show ?case
  proof (cases b)
    case False
    then show ?thesis using Cons.prems
      by (simp add: es_push_loop_done store_next_def log_def)
  next
    case True
    let ?st2 = "log (Cas_head (head st) (Some n) False) (store_next n (head st) st)"
    have s2: "head ?st2 = head st" "lookup (heap ?st2) n = Some (nd\<lparr>node_next := head st\<rparr>)"
      "arena ?st2 = replicate ELIM_ARRAY_SIZE None"
      "heap ?st2 = (heap st)[n := Some (nd\<lparr>node_next := head st\<rparr>)]"
      using Cons.prems by (auto simp: store_next_def log_def lookup_def split: if_splits)
    show ?thesis
    proof (cases "Suc c \<ge> CAS_THRESHOLD")
      case False
      from Cons.IH[OF s2(3) s2(2), of "Suc c"] show ?thesis
        using True False s2 by (simp add: es_push_loop_retry Let_def)
    next
      case c: True
      obtain r where r: "try_elim_push n ?st2 = (False, Some n, ?st2\<lparr>rng := r\<rparr>)"
        using try_elim_push_loop_null[OF s2(3), of ELIM_TRIES n]
        by (auto simp: try_elim_push_def ELIM_TRIES_def)
      have "arena (?st2\<lparr>rng := r\<rparr>) = replicate ELIM_ARRAY_SIZE None"
        "lookup (heap (?st2\<lparr>rng := r\<rparr>)) n = Some (nd\<lparr>node_next := head st\<rparr>)"
        using s2 by simp_all
      from Cons.IH[OF this, of 0] show ?thesis
        using True c s2 r by (simp add: es_push_loop_retry Let_def)
    qed
  qed
qed

lemma es_push_inv:
  assumes "es_inv st axs"
  shows "es_inv (es_push v sp st) ((length (heap st), v) # axs)"
proof -
  let ?n = "length (heap st)"
  let ?st1 = "snd (new_Node v st)"
  have h1: "head ?st1 = head st" "lookup (heap ?st1) ?n = Some \<lparr>node_value = v, node_next = None\<rparr>"
    "heap ?st1 = heap st @ [Some \<lparr>node_value = v, node_next = None\<rparr>]"
    "arena ?st1 = replicate ELIM_ARRAY_SIZE None"
    using assms by (simp_all add: new_Node_def lookup_def es_inv_def)
  have eq: "es_push v sp st = es_push_loop sp 0 ?n ?st1"
    by (simp add: es_push_def new_Node_def Let_def)
  note f = es_push_loop_fields[OF h1(4) h1(2), of sp 0]
  have lt: "\<And>a. a \<in> fst ` set axs \<Longrightarrow> a < ?n"
    using assms chain_addr_lt unfolding es_inv_def by blast
  have c: "chain (heap (es_push v sp st)) (head st) axs"
    apply (rule chain_cong[of "heap st"])
    using assms apply (simp add: es_inv_def)
    using lt by (auto simp: eq f h1 lookup_update lookup_append)
  show ?thesis
    using assms c lt unfolding es_inv_def
    by (auto simp: eq f h1 lookup_def)
qed

lemma es_pop_loop_empty:
  "head st = None \<Longrightarrow> es_pop_loop sp c out st = try_elim_pop out st"
  by (subst es_pop_loop.simps) simp

lemma es_pop_loop_bad:
  "head st = Some a \<Longrightarrow> lookup (heap st) a = None \<Longrightarrow> es_pop_loop sp c out st = Inl Bad_deref"
  by (subst es_pop_loop.simps) simp

lemma es_pop_loop_done:
  "head st = Some a \<Longrightarrow> lookup (heap st) a = Some nd \<Longrightarrow> sp = [] \<or> \<not> hd sp \<Longrightarrow>
     es_pop_loop sp c out st =
       Inr (True, node_value nd,
            delete_node a (log (Read_value a) (log (Cas_head (Some a) (node_next nd) True)
              ((log (Read_next a) st)\<lparr>head := node_next nd\<rparr>))))"
  by (subst es_pop_loop.simps)
     (auto simp: cas_weak_head_def log_def Let_def split: list.splits bool.splits)

lemma es_pop_loop_retry:
  "head st = Some a \<Longrightarrow> lookup (heap st) a = Some nd \<Longrightarrow>
     es_pop_loop (True # sp) c out st =
       (let st2 = log (Cas_head (Some a) (node_next nd) False) (log (Read_next a) st)
        in if Suc c \<ge> CAS_THRESHOLD
           then (case try_elim_pop out st2 of
                   Inl f \<Rightarrow> Inl f
                 | Inr (taken, out', st3) \<Rightarrow>
                     if taken then Inr (True, out', st3) else es_pop_loop sp 0 out' st3)
           else es_pop_loop sp (Suc c) out st2)"
  by (subst es_pop_loop.simps)
     (simp add: cas_weak_head_def log_def Let_def)

lemma es_pop_loop_props:
  "es_pop_loop sp c out st = Inr (ok, out', st') \<Longrightarrow>
     no_smr st st' \<and> (\<not> ok \<longrightarrow> out' = out)"
proof (induction sp arbitrary: c out st)
  case Nil
  show ?case
  proof (cases "head st")
    case None
    with Nil show ?thesis
      using try_elim_pop_loop_props by (simp add: es_pop_loop_empty try_elim_pop_def)
  next
    case (Some a)
    with Nil show ?thesis
      by (cases "lookup (heap st) a")
         (auto simp: es_pop_loop_bad es_pop_loop_done delete_node_def no_smr_def log_def)
  qed
next
  case (Cons b sp)
  show ?case
  proof (cases "head st")
    case None
    with Cons.prems show ?thesis
      using try_elim_pop_loop_props by (simp add: es_pop_loop_empty try_elim_pop_def)
  next
    case (Some a)
    show ?thesis
    proof (cases "lookup (heap st) a")
      case None
      with Some Cons.prems show ?thesis by (simp add: es_pop_loop_bad)
    next
      case nd: (Some nd)
      show ?thesis
      proof (cases b)
        case False
        with Some nd Cons.prems show ?thesis
          by (auto simp: es_pop_loop_done delete_node_def no_smr_def log_def)
      next
        case True
        let ?st2 = "log (Cas_head (Some a) (node_next nd) False) (log (Read_next a) st)"
        have n2: "no_smr st ?st2" by (simp add: no_smr_def log_def)
        show ?thesis
        proof (cases "Suc c \<ge> CAS_THRESHOLD")
          case False
          with Some nd True Cons.prems
          have "es_pop_loop sp (Suc c) out ?st2 = Inr (ok, out', st')"
            by (simp add: es_pop_loop_retry Let_def)
          from Cons.IH[OF this] n2 show ?thesis by (auto intro: no_smr_trans)
        next
          case c: True
          show ?thesis
          proof (cases "try_elim_pop out ?st2")
            case (Inl f)
            with Some nd True c Cons.prems show ?thesis
              by (simp add: es_pop_loop_retry Let_def)
          next
            case (Inr res)
            obtain t o3 st3 where res: "res = (t, o3, st3)" by (cases res) auto
            from Inr res have p3: "no_smr ?st2 st3 \<and> (\<not> t \<longrightarrow> o3 = out)"
              using try_elim_pop_loop_props by (simp add: try_elim_pop_def)
            show ?thesis
            proof (cases t)
              case True
              with Some nd \<open>b\<close> c Cons.prems Inr res p3 n2 show ?thesis
                by (auto simp: es_pop_loop_retry Let_def intro: no_smr_trans)
            next
              case False
              with Some nd \<open>b\<close> c Cons.prems Inr res
              have "es_pop_loop sp 0 o3 st3 = Inr (ok, out', st')"
                by (simp add: es_pop_loop_retry Let_def)
              from Cons.IH[OF this] p3 n2 False show ?thesis
                by (auto intro: no_smr_trans)
            qed
          qed
        qed
      qed
    qed
  qed
qed

lemma es_pop_loop_central:
  "head st = Some a \<Longrightarrow> lookup (heap st) a = Some nd \<Longrightarrow> arena st = replicate ELIM_ARRAY_SIZE None \<Longrightarrow>
     \<exists>st'. es_pop_loop sp c out st = Inr (True, node_value nd, st') \<and> head st' = node_next nd
          \<and> heap st' = (heap st)[a := None] \<and> arena st' = replicate ELIM_ARRAY_SIZE None"
proof (induction sp arbitrary: c st)
  case Nil
  then show ?case by (simp add: es_pop_loop_done delete_node_def log_def)
next
  case (Cons b sp)
  show ?case
  proof (cases b)
    case False
    with Cons.prems show ?thesis by (simp add: es_pop_loop_done delete_node_def log_def)
  next
    case True
    let ?st2 = "log (Cas_head (Some a) (node_next nd) False) (log (Read_next a) st)"
    have s2: "head ?st2 = Some a" "lookup (heap ?st2) a = Some nd"
      "arena ?st2 = replicate ELIM_ARRAY_SIZE None" "heap ?st2 = heap st"
      using Cons.prems by (simp_all add: log_def)
    show ?thesis
    proof (cases "Suc c \<ge> CAS_THRESHOLD")
      case False
      from Cons.IH[OF s2(1,2,3), of "Suc c"] show ?thesis
        using True False Cons.prems s2 by (simp add: es_pop_loop_retry Let_def)
    next
      case c: True
      obtain r where r: "try_elim_pop out ?st2 = Inr (False, out, ?st2\<lparr>rng := r\<rparr>)"
        using try_elim_pop_loop_null[OF s2(3), of ELIM_TRIES out]
        by (auto simp: try_elim_pop_def)
      have "head (?st2\<lparr>rng := r\<rparr>) = Some a" "lookup (heap (?st2\<lparr>rng := r\<rparr>)) a = Some nd"
        "arena (?st2\<lparr>rng := r\<rparr>) = replicate ELIM_ARRAY_SIZE None"
        using s2 by simp_all
      from Cons.IH[OF this, of 0] show ?thesis
        using True c Cons.prems s2 r by (simp add: es_pop_loop_retry Let_def)
    qed
  qed
qed

lemma es_pop_nonempty:
  assumes "es_inv st ((a, x) # axs)"
  shows "\<exists>st'. es_pop out sp st = Inr (True, x, st') \<and> es_inv st' axs"
proof -
  from assms obtain nd where hd: "head st = Some a" and nd: "lookup (heap st) a = Some nd"
    "node_value nd = x" and ch: "chain (heap st) (node_next nd) axs"
    and ar: "arena st = replicate ELIM_ARRAY_SIZE None"
    and d: "distinct (map fst ((a, x) # axs))"
    by (auto simp: es_inv_def split: option.splits)
  from es_pop_loop_central[OF hd nd(1) ar, of sp 0 out] obtain st' where
    r: "es_pop out sp st = Inr (True, x, st')" and f: "head st' = node_next nd"
      "heap st' = (heap st)[a := None]" "arena st' = replicate ELIM_ARRAY_SIZE None"
    using nd(2) by (auto simp: es_pop_def)
  have "chain (heap st') (head st') axs"
    apply (rule chain_cong[of "heap st"])
    using ch f apply simp
    using d f by (auto simp: lookup_update image_iff)
  with r f d show ?thesis by (auto simp: es_inv_def)
qed

lemma es_pop_empty:
  assumes "head st = None" "arena st = replicate ELIM_ARRAY_SIZE None"
  shows "\<exists>r. es_pop out sp st = Inr (False, out, st\<lparr>rng := r\<rparr>)"
  using assms try_elim_pop_loop_null[OF assms(2), of ELIM_TRIES out]
  by (simp add: es_pop_def es_pop_loop_empty try_elim_pop_def)

section \<open>The Michael-Scott queue: enqueue\<close>

lemma qlinks_addr_lt: "qlinks h p as \<Longrightarrow> a \<in> set as \<Longrightarrow> a < length h"
  by (induction h p as rule: qlinks.induct) (auto simp: lookup_def split: option.splits if_splits)

lemma qlinks_cong:
  "qlinks h p as \<Longrightarrow> (\<forall>a\<in>set as. lookup h' a = lookup h a) \<Longrightarrow> qlinks h' p as"
  by (induction h p as rule: qlinks.induct) (auto split: option.splits)

lemma qvals_cong:
  "qvals h axs \<Longrightarrow> (\<forall>a\<in>fst ` set axs. lookup h' a = lookup h a) \<Longrightarrow> qvals h' axs"
  by (induction axs) (auto simp: qvals_def split: option.splits)

lemma qlinks_last:
  "qlinks h p as \<Longrightarrow> as \<noteq> [] \<Longrightarrow> \<exists>tn. lookup h (last as) = Some tn \<and> qnode_next tn = None"
  by (induction h p as rule: qlinks.induct) (auto split: option.splits)

lemma qlinks_snoc:
  "qlinks h p as \<Longrightarrow> as \<noteq> [] \<Longrightarrow> distinct as \<Longrightarrow> n \<notin> set as \<Longrightarrow>
   lookup h n = Some nn \<Longrightarrow> qnode_next nn = None \<Longrightarrow> lookup h (last as) = Some tn \<Longrightarrow>
     qlinks (h[last as := Some (tn\<lparr>qnode_next := Some n\<rparr>)]) p (as @ [n])"
proof (induction h p as rule: qlinks.induct)
  case (1 h p)
  then show ?case by simp
next
  case (2 h p a as)
  show ?case
  proof (cases "as = []")
    case True
    with 2 show ?thesis
      by (auto simp: lookup_update split: option.splits) (auto simp: lookup_def split: if_splits)
  next
    case False
    with "2.prems" obtain nd where nd: "lookup h a = Some nd" "qlinks h (qnode_next nd) as"
      by (auto split: option.splits)
    have "qlinks (h[last as := Some (tn\<lparr>qnode_next := Some n\<rparr>)]) (qnode_next nd) (as @ [n])"
      using "2.IH"[OF nd(1) nd(2) False] "2.prems" False by simp
    moreover have "a \<noteq> last as" using "2.prems"(3) False by auto
    ultimately show ?thesis using "2.prems" nd False
      by (auto simp: lookup_update)
  qed
qed

lemma qvals_set_next:
  "qvals h axs \<Longrightarrow> lookup h t = Some tn \<Longrightarrow> qvals (h[t := Some (tn\<lparr>qnode_next := p\<rparr>)]) axs"
  by (induction axs) (auto simp: qvals_def lookup_update split: option.splits if_splits)

lemma enqueue_loop_appends:
  "tail st = Some t \<Longrightarrow> lookup (heap st) t = Some tn \<Longrightarrow> qnode_next tn = None \<Longrightarrow>
   length sp < fuel \<Longrightarrow>
     enqueue_loop fuel sp n st =
       Inr (st\<lparr>heap := (heap st)[t := Some (tn\<lparr>qnode_next := Some n\<rparr>)], tail := Some n\<rparr>)"
proof (induction sp arbitrary: fuel)
  case Nil
  then obtain k where "fuel = Suc k" by (cases fuel) auto
  with Nil show ?case
    by (simp add: cas_weak_next_def cas_strong_tail_def Let_def)
next
  case (Cons b sp)
  then obtain k where k: "fuel = Suc k" by (cases fuel) auto
  show ?case
  proof (cases b)
    case True
    have "enqueue_loop k sp n st =
       Inr (st\<lparr>heap := (heap st)[t := Some (tn\<lparr>qnode_next := Some n\<rparr>)], tail := Some n\<rparr>)"
      using Cons.prems k by (intro Cons.IH) auto
    with True Cons.prems k show ?thesis
      by (simp add: cas_weak_next_def cas_strong_tail_def Let_def)
  next
    case False
    with Cons.prems k show ?thesis
      by (simp add: cas_weak_next_def cas_strong_tail_def Let_def)
  qed
qed

lemma last_in: "as \<noteq> [] \<Longrightarrow> last as \<in> set as"
  by simp

lemma enqueue_inv:
  assumes "msq_inv me st d axs" "length sp < fuel"
  shows "\<exists>st'. enqueue v sp fuel st = Inr st' \<and> msq_inv me st' d (axs @ [(length (heap st), v)])"
proof -
  let ?n = "length (heap st)"
  let ?as = "d # map fst axs"
  let ?t = "last ?as"
  let ?nn = "\<lparr>qnode_next = None, qnode_value = Some v\<rparr>"
  let ?h1 = "heap st @ [Some ?nn]"
  let ?st1 = "st\<lparr>heap := ?h1\<rparr>"
  from assms(1) have inv: "head st = Some d" "qlinks (heap st) (Some d) ?as" "qvals (heap st) axs"
    "tail st = Some ?t" "distinct ?as"
    "\<forall>a\<in>set (retired st). a \<notin> set ?as \<and> a < length (heap st)" "hp_available me st"
    by (auto simp: msq_inv_def)
  have lt: "\<And>a. a \<in> set ?as \<Longrightarrow> a < ?n" using qlinks_addr_lt[OF inv(2)] by blast
  have l1: "qlinks ?h1 (Some d) ?as"
    by (rule qlinks_cong[OF inv(2)]) (use lt in \<open>auto simp: lookup_append\<close>)
  obtain tn where tn: "lookup ?h1 ?t = Some tn" "qnode_next tn = None"
    using qlinks_last[OF l1] by auto
  have nnew: "?n \<notin> set ?as" using lt by blast
  let ?h2 = "?h1[?t := Some (tn\<lparr>qnode_next := Some ?n\<rparr>)]"
  let ?st2 = "?st1\<lparr>heap := ?h2, tail := Some ?n\<rparr>"
  have run: "enqueue v sp fuel st = Inr ?st2"
    using enqueue_loop_appends[of ?st1 ?t tn sp fuel ?n] inv(4) tn assms(2)
    by (simp add: enqueue_def new_QNode_def Let_def)
  have ne: "?as \<noteq> []" by simp
  have ln: "lookup ?h1 ?n = Some ?nn" by simp
  have nx: "qnode_next ?nn = None" by simp
  have l2: "qlinks ?h2 (Some d) (?as @ [?n])"
    by (rule qlinks_snoc[OF l1 ne inv(5) nnew ln nx tn(1)])
  have tlt: "?t < ?n" using lt[of ?t] last_in[of ?as] by simp
  have v2: "qvals ?h2 (axs @ [(?n, v)])"
  proof -
    have "qvals ?h1 axs"
      by (rule qvals_cong[OF inv(3)]) (use lt in \<open>auto simp: lookup_append\<close>)
    then have "qvals ?h2 axs"
      using tn(1) by (rule qvals_set_next)
    moreover have "lookup ?h2 ?n = Some ?nn"
      using tlt by (simp add: lookup_update)
    ultimately show ?thesis by (simp add: qvals_def)
  qed
  have "msq_inv me ?st2 d (axs @ [(?n, v)])"
    unfolding msq_inv_def
    using inv l2 v2 nnew lt by (auto simp: hp_available_def less_Suc_eq)
  with run show ?thesis by blast
qed

section \<open>The Michael-Scott queue: dequeue\<close>

lemma dequeue_loop_step:
  "dequeue_loop (Suc k) hp out st =
     (case head st of
        None \<Rightarrow> Inl Bad_deref
      | Some h \<Rightarrow>
          (case lookup (heap st) h of
             None \<Rightarrow> Inl Bad_deref
           | Some hn \<Rightarrow>
               (let st2 = log (Read_next h) (hp_set hp (Some h) st)
                in case qnode_next hn of
                     None \<Rightarrow> Inr (False, out, st2)
                   | Some x \<Rightarrow>
                       if tail st = Some h then dequeue_loop k hp out (st2\<lparr>tail := Some x\<rparr>)
                       else (case lookup (heap st) x of
                               None \<Rightarrow> Inl Bad_deref
                             | Some xn \<Rightarrow>
                                 (case qnode_value xn of
                                    None \<Rightarrow> Inl Bad_deref
                                  | Some v \<Rightarrow>
                                      Inr (True, v,
                                           retire h (hp_clear hp (log (Read_value x)
                                             (log (Cas_head (Some h) (Some x) True)
                                                (st2\<lparr>head := Some x\<rparr>))))))))))"
  by (auto simp: Let_def hp_set_def log_def cas_strong_tail_def cas_strong_head_def hp_clear_def
           split: option.splits)

lemma dequeue_loop_props:
  "dequeue_loop k hp out st = Inr (ok, out', st') \<Longrightarrow>
     (\<not> ok \<longrightarrow> out' = out)
     \<and> (ok \<longrightarrow> (\<exists>pre h x ds. trace st' =
                    trace st @ pre @ Hp_set (Some h) # Read_next h # Cas_head (Some h) (Some x) True
                      # Read_value x # Hp_clear # Retire h # map Delete ds
                  \<and> list_all is_protect pre))"
proof (induction k arbitrary: st)
  case 0
  then show ?case by simp
next
  case (Suc k)
  from Suc.prems obtain h hn where h: "head st = Some h" "lookup (heap st) h = Some hn"
    by (auto simp: dequeue_loop_step simp del: dequeue_loop.simps split: option.splits)
  let ?st2 = "log (Read_next h) (hp_set hp (Some h) st)"
  have t2: "trace ?st2 = trace st @ [Hp_set (Some h), Read_next h]"
    by (simp add: log_def hp_set_def)
  show ?case
  proof (cases "qnode_next hn")
    case None
    with Suc.prems h show ?thesis
      by (simp add: dequeue_loop_step Let_def del: dequeue_loop.simps)
  next
    case (Some x)
    show ?thesis
    proof (cases "tail st = Some h")
      case True
      with Suc.prems h Some
      have "dequeue_loop k hp out (?st2\<lparr>tail := Some x\<rparr>) = Inr (ok, out', st')"
        by (simp add: dequeue_loop_step Let_def del: dequeue_loop.simps)
      from Suc.IH[OF this] show ?thesis
        apply (simp add: t2)
        apply clarify
        subgoal for pre h' x' ds
          by (rule exI[of _ "Hp_set (Some h) # Read_next h # pre"]) auto
        done
    next
      case False
      with Suc.prems h Some obtain xn v where
        x: "lookup (heap st) x = Some xn" "qnode_value xn = Some v"
        and r: "ok" "out' = v"
          "st' = retire h (hp_clear hp (log (Read_value x)
                   (log (Cas_head (Some h) (Some x) True) (?st2\<lparr>head := Some x\<rparr>))))"
        by (auto simp: dequeue_loop_step Let_def simp del: dequeue_loop.simps split: option.splits)
      show ?thesis
        using r(1)
        apply (simp add: r(3) retire_eq)
        apply (simp add: log_def hp_set_def hp_clear_def)
        apply (rule exI[of _ "[]"])
        apply auto
        done
    qed
  qed
qed

lemma dequeue_empty:
  assumes "msq_inv me st d []" "fuel > 0"
  shows "\<exists>st'. dequeue me out fuel st = Inr (False, out, st') \<and> msq_inv me st' d []"
proof -
  from assms(1) obtain dn where inv: "head st = Some d" "lookup (heap st) d = Some dn"
    "qnode_next dn = None" "tail st = Some d"
    "\<forall>a\<in>set (retired st). a \<noteq> d \<and> a < length (heap st)" "hp_available me st"
    by (auto simp: msq_inv_def split: option.splits)
  from acquire_ok[OF inv(6)] obtain i recs where
    acq: "acquire_hazard_record me st = Inr (i, st\<lparr>g_hazard_records := recs\<rparr>)"
    and own: "find_owner (Some me) recs \<noteq> None" by blast
  obtain k where k: "fuel = Suc k" using assms(2) by (cases fuel) auto
  let ?st0 = "st\<lparr>g_hazard_records := recs\<rparr>"
  let ?st' = "hp_clear i (log (Read_next d) (hp_set i (Some d) ?st0))"
  have "dequeue me out fuel st = Inr (False, out, ?st')"
    using inv by (simp add: dequeue_def acq k dequeue_loop_step Let_def del: dequeue_loop.simps)
  moreover have "hp_available me ?st0" using own by (simp add: hp_available_def)
  then have "hp_available me ?st'" by simp
  then have "msq_inv me ?st' d []"
    using inv by (simp add: msq_inv_def qvals_def hp_clear_def hp_set_def log_def)
  ultimately show ?thesis by blast
qed

lemma dequeue_nonempty:
  assumes "msq_inv me st d ((a, x) # axs)" "fuel > 0"
  shows "\<exists>st'. dequeue me out fuel st = Inr (True, x, st') \<and> msq_inv me st' a axs"
proof -
  let ?as = "a # map fst axs"
  from assms(1) obtain dn an where inv: "head st = Some d" "lookup (heap st) d = Some dn"
    "qnode_next dn = Some a" "lookup (heap st) a = Some an" "qnode_value an = Some x"
    "qlinks (heap st) (Some a) ?as" "qvals (heap st) axs"
    "tail st = Some (last ?as)" "distinct (d # ?as)"
    "\<forall>b\<in>set (retired st). b \<notin> set (d # ?as) \<and> b < length (heap st)" "hp_available me st"
    by (auto simp: msq_inv_def qvals_def split: option.splits)
  have "last ?as \<in> set ?as" by (rule last_in) simp
  moreover have "d \<notin> set ?as" using inv(9) by simp
  ultimately have "last ?as \<noteq> d" by blast
  then have tl_ne: "tail st \<noteq> Some d"
    using inv(8) by simp
  from acquire_ok[OF inv(11)] obtain i recs where
    acq: "acquire_hazard_record me st = Inr (i, st\<lparr>g_hazard_records := recs\<rparr>)"
    and own: "find_owner (Some me) recs \<noteq> None" by blast
  obtain k where k: "fuel = Suc k" using assms(2) by (cases fuel) auto
  let ?st0 = "st\<lparr>g_hazard_records := recs\<rparr>"
  let ?st4 = "hp_clear i (log (Read_value a) (log (Cas_head (Some d) (Some a) True)
                ((log (Read_next d) (hp_set i (Some d) ?st0))\<lparr>head := Some a\<rparr>)))"
  let ?st' = "hp_clear i (retire d ?st4)"
  have run: "dequeue me out fuel st = Inr (True, x, ?st')"
    using inv tl_ne
    by (simp add: dequeue_def acq k dequeue_loop_step Let_def del: dequeue_loop.simps)
  have av0: "hp_available me ?st0" using own by (simp add: hp_available_def)
  have f4: "head ?st4 = Some a" "heap ?st4 = heap st" "retired ?st4 = retired st"
    "tail ?st4 = tail st"
    by (simp_all add: hp_clear_def hp_set_def log_def)
  have av4: "hp_available me ?st4" using av0 by simp
  have dlt: "d < length (heap st)" using inv(2) by (auto simp: lookup_def split: if_splits)
  have notin: "\<And>b. b \<in> set ?as \<Longrightarrow> b \<notin> set (retire_dels d ?st4)"
    using retire_sets(1)[of d ?st4] inv(9,10) f4(3) by auto
  have lk: "\<And>b. b \<in> set ?as \<Longrightarrow> lookup (heap ?st') b = lookup (heap st) b"
    using notin f4(2) by (simp add: retire_eq hp_clear_def log_def lookup_free_all)
  have l': "qlinks (heap ?st') (Some a) ?as"
    by (rule qlinks_cong[OF inv(6)]) (use lk in blast)
  have v': "qvals (heap ?st') axs"
    by (rule qvals_cong[OF inv(7)]) (use lk in auto)
  have r': "set (retired ?st') \<subseteq> set (retired st) \<union> {d}"
    using retire_sets(2)[of d ?st4] f4(3) by (simp add: retire_eq hp_clear_def log_def)
  have len: "length (heap ?st') = length (heap st)"
    using f4(2) by (simp add: retire_eq hp_clear_def log_def)
  have "msq_inv me ?st' a axs"
    unfolding msq_inv_def
  proof (intro conjI ballI)
    show "head ?st' = Some a" using f4(1) by (simp add: retire_eq hp_clear_def log_def)
    show "qlinks (heap ?st') (Some a) ?as" by (rule l')
    show "qvals (heap ?st') axs" by (rule v')
    show "tail ?st' = Some (last ?as)" using f4(4) inv(8) by (simp add: retire_eq hp_clear_def log_def)
    show "distinct ?as" using inv(9) by simp
    show "hp_available me ?st'" using av4
      by (simp add: retire_eq)
  next
    fix b assume "b \<in> set (retired ?st')"
    with r' have "b \<in> set (retired st) \<union> {d}" by blast
    then show "b \<notin> set ?as" using inv(9,10) by auto
  next
    fix b assume "b \<in> set (retired ?st')"
    with r' have "b \<in> set (retired st) \<union> {d}" by blast
    then show "b < length (heap ?st')" using inv(10) dlt len by auto
  qed
  with run show ?thesis by blast
qed

section \<open>The flat-combining stack\<close>

lemma fcs_visit_idle:
  "r < length (req_heap p) \<Longrightarrow> op (req_heap p ! r) = NONE \<Longrightarrow> fcs_visit r (s, p) = Inr (s, p)"
  by (simp add: fcs_visit_def req_at_def)

lemma fcs_combine_loop_idle:
  "\<forall>r\<in>set rs. r < length (req_heap p) \<and> op (req_heap p ! r) = NONE \<Longrightarrow>
     fcs_combine_loop rs (s, p) = Inr (s, p)"
  by (induction rs) (simp_all add: fcs_visit_idle)

lemma fcs_visit_pending:
  assumes "r < length (req_heap p)" "op (req_heap p ! r) \<noteq> NONE"
  shows "\<exists>s' h'. fcs_visit r (s, p) = Inr (s', p\<lparr>req_heap := h'\<rparr>) \<and> length h' = length (req_heap p)
           \<and> op (h' ! r) = NONE \<and> (\<forall>r'. r' \<noteq> r \<longrightarrow> h' ! r' = req_heap p ! r')"
  using assms by (cases "op (req_heap p ! r)") (auto simp: fcs_visit_def req_at_def)

lemma fcs_combine_loop_pending:
  "r \<in> set rs \<Longrightarrow>
   \<forall>r'\<in>set rs. r' < length (req_heap p) \<and> (r' \<noteq> r \<longrightarrow> op (req_heap p ! r') = NONE) \<Longrightarrow>
   op (req_heap p ! r) \<noteq> NONE \<Longrightarrow>
     fcs_combine_loop rs (s, p) = fcs_visit r (s, p)"
proof (induction rs)
  case Nil
  then show ?case by simp
next
  case (Cons r' rs)
  show ?case
  proof (cases "r' = r")
    case True
    from Cons.prems True have lt: "r < length (req_heap p)" by simp
    from fcs_visit_pending[OF lt Cons.prems(3), of s] obtain s' h' where
      v: "fcs_visit r (s, p) = Inr (s', p\<lparr>req_heap := h'\<rparr>)" "length h' = length (req_heap p)"
         "op (h' ! r) = NONE" "\<forall>r'. r' \<noteq> r \<longrightarrow> h' ! r' = req_heap p ! r'" by blast
    have "\<forall>q\<in>set rs. q < length (req_heap (p\<lparr>req_heap := h'\<rparr>))
              \<and> op (req_heap (p\<lparr>req_heap := h'\<rparr>) ! q) = NONE"
    proof
      fix q assume q: "q \<in> set rs"
      with Cons.prems(2) have "q < length (req_heap p)" "q \<noteq> r \<longrightarrow> op (req_heap p ! q) = NONE"
        by auto
      with v show "q < length (req_heap (p\<lparr>req_heap := h'\<rparr>))
              \<and> op (req_heap (p\<lparr>req_heap := h'\<rparr>) ! q) = NONE"
        by (cases "q = r") auto
    qed
    from fcs_combine_loop_idle[OF this] show ?thesis
      using True v by simp
  next
    case False
    with Cons.prems have "fcs_visit r' (s, p) = Inr (s, p)"
      by (intro fcs_visit_idle) auto
    moreover have "fcs_combine_loop rs (s, p) = fcs_visit r (s, p)"
      using Cons.prems False by (intro Cons.IH) auto
    ultimately show ?thesis by simp
  qed
qed

lemma fcs_get_request_linked:
  assumes "fcs_inv me (s, p)"
  shows "\<exists>r s1 p1. fcs_get_request me (s, p) = (r, s1, p1) \<and> r \<in> set (fcs_requests s1)
           \<and> tls_req p1 me = Some r \<and> fcs_data s1 = fcs_data s
           \<and> (\<forall>q\<in>set (fcs_requests s1). q < length (req_heap p1) \<and> op (req_heap p1 ! q) = NONE)"
proof (cases "tls_req p me")
  case None
  show ?thesis
    using assms None
    by (auto simp: fcs_get_request_def fcs_inv_def Let_def nth_append)
next
  case (Some r)
  then show ?thesis
    using assms by (auto simp: fcs_get_request_def fcs_inv_def)
qed

lemma fcs_push_inv:
  assumes "fcs_inv me sp"
  shows "\<exists>sp'. fcs_push me v sp = Inr sp' \<and> fcs_data (fst sp') = fcs_data (fst sp) @ [v]
           \<and> fcs_inv me sp'"
proof -
  obtain s p where sp: "sp = (s, p)" by (cases sp)
  from fcs_get_request_linked[OF assms[unfolded sp]] obtain r s1 p1 where
    g: "fcs_get_request me (s, p) = (r, s1, p1)" "r \<in> set (fcs_requests s1)"
       "tls_req p1 me = Some r" "fcs_data s1 = fcs_data s"
       "\<forall>q\<in>set (fcs_requests s1). q < length (req_heap p1) \<and> op (req_heap p1 ! q) = NONE"
    by blast
  let ?rq = "req_heap p1 ! r"
  let ?rq2 = "?rq\<lparr>req_value := v, success := True, op := PUSH\<rparr>"
  let ?p2 = "p1\<lparr>req_heap := (req_heap p1)[r := ?rq2]\<rparr>"
  have lt: "r < length (req_heap p1)" using g(2,5) by blast
  have c: "fcs_combine_loop (fcs_requests s1) (s1, ?p2) = fcs_visit r (s1, ?p2)"
    by (rule fcs_combine_loop_pending[OF g(2)]) (use g(5) lt in \<open>auto simp: nth_list_update\<close>)
  let ?p3 = "?p2\<lparr>req_heap := (req_heap ?p2)[r := ?rq2\<lparr>op := NONE\<rparr>]\<rparr>"
  let ?s3 = "s1\<lparr>fcs_data := fcs_data s1 @ [v]\<rparr>"
  have v: "fcs_visit r (s1, ?p2) = Inr (?s3, ?p3)"
    using lt by (simp add: fcs_visit_def req_at_def)
  have run: "fcs_push me v sp = Inr (?s3, ?p3)"
    using lt by (simp add: fcs_push_def sp g(1) req_at_def fcs_combine_def c v)
  have "fcs_inv me (?s3, ?p3)"
    using g lt by (auto simp: fcs_inv_def nth_list_update)
  with run g(4) show ?thesis by (auto simp: sp)
qed

lemma fcs_pop_inv:
  assumes "fcs_inv me sp"
  shows "\<exists>sp'. fcs_pop me out sp =
                  Inr (fcs_data (fst sp) \<noteq> [],
                       if fcs_data (fst sp) \<noteq> [] then last (fcs_data (fst sp)) else out, sp')
           \<and> fcs_data (fst sp') = butlast (fcs_data (fst sp)) \<and> fcs_inv me sp'"
proof -
  obtain s p where sp: "sp = (s, p)" by (cases sp)
  from fcs_get_request_linked[OF assms[unfolded sp]] obtain r s1 p1 where
    g: "fcs_get_request me (s, p) = (r, s1, p1)" "r \<in> set (fcs_requests s1)"
       "tls_req p1 me = Some r" "fcs_data s1 = fcs_data s"
       "\<forall>q\<in>set (fcs_requests s1). q < length (req_heap p1) \<and> op (req_heap p1 ! q) = NONE"
    by blast
  let ?rq = "req_heap p1 ! r"
  let ?rq2 = "?rq\<lparr>success := False, op := POP\<rparr>"
  let ?p2 = "p1\<lparr>req_heap := (req_heap p1)[r := ?rq2]\<rparr>"
  have lt: "r < length (req_heap p1)" using g(2,5) by blast
  have c: "fcs_combine_loop (fcs_requests s1) (s1, ?p2) = fcs_visit r (s1, ?p2)"
    by (rule fcs_combine_loop_pending[OF g(2)]) (use g(5) lt in \<open>auto simp: nth_list_update\<close>)
  show ?thesis
  proof (cases "fcs_data s = []")
    case True
    let ?p3 = "?p2\<lparr>req_heap := (req_heap ?p2)[r := ?rq2\<lparr>success := False, op := NONE\<rparr>]\<rparr>"
    have v: "fcs_visit r (s1, ?p2) = Inr (s1, ?p3)"
      using lt True g(4) by (simp add: fcs_visit_def req_at_def)
    have run: "fcs_pop me out sp = Inr (False, out, s1, ?p3)"
      using lt by (simp add: fcs_pop_def sp g(1) req_at_def fcs_combine_def c v)
    have "fcs_inv me (s1, ?p3)"
      using g lt by (auto simp: fcs_inv_def nth_list_update)
    with run g(4) True show ?thesis by (auto simp: sp)
  next
    case False
    let ?p3 = "?p2\<lparr>req_heap := (req_heap ?p2)
                   [r := ?rq2\<lparr>req_value := last (fcs_data s1), success := True, op := NONE\<rparr>]\<rparr>"
    let ?s3 = "s1\<lparr>fcs_data := butlast (fcs_data s1)\<rparr>"
    have v: "fcs_visit r (s1, ?p2) = Inr (?s3, ?p3)"
      using lt False g(4) by (simp add: fcs_visit_def req_at_def)
    have run: "fcs_pop me out sp = Inr (True, last (fcs_data s), ?s3, ?p3)"
      using lt g(4) by (simp add: fcs_pop_def sp g(1) req_at_def fcs_combine_def c v)
    have "fcs_inv me (?s3, ?p3)"
      using g lt by (auto simp: fcs_inv_def nth_list_update)
    with run g(4) False show ?thesis by (auto simp: sp)
  qed
qed

lemma fcs_pop_false_out:
  "fcs_pop me out sp = Inr (False, out', sp') \<Longrightarrow> out' = out"
  by (auto simp: fcs_pop_def Let_def split: prod.splits option.splits sum.splits if_splits)

lemma fcs_visit_served:
  "fcs_visit q sp = Inr sp' \<Longrightarrow> served (snd sp) r \<Longrightarrow>
     served (snd sp') r \<and> tls_req (snd sp') = tls_req (snd sp)"
  by (cases sp)
     (auto simp: fcs_visit_def served_def req_at_def Let_def nth_list_update
           split: option.splits Op.splits if_splits)

lemma fcs_combine_loop_served:
  "fcs_combine_loop rs sp = Inr sp' \<Longrightarrow> served (snd sp) r \<Longrightarrow>
     served (snd sp') r \<and> tls_req (snd sp') = tls_req (snd sp)"
proof (induction rs arbitrary: sp)
  case Nil
  then show ?case by simp
next
  case (Cons q rs)
  from Cons.prems(1) obtain sp1 where v: "fcs_visit q sp = Inr sp1"
    and l: "fcs_combine_loop rs sp1 = Inr sp'"
    by (auto split: sum.splits)
  from fcs_visit_served[OF v Cons.prems(2)] Cons.IH[OF l] show ?case by simp
qed

lemma fcs_push_success:
  assumes "fcs_push me v sp = Inr sp'"
  shows "\<exists>r. tls_req (snd sp') me = Some r \<and> r < length (req_heap (snd sp'))
            \<and> success (req_heap (snd sp') ! r)"
proof -
  obtain r s1 p1 where g: "fcs_get_request me sp = (r, s1, p1)" by (cases "fcs_get_request me sp")
  then have t: "tls_req p1 me = Some r"
    by (cases sp) (auto simp: fcs_get_request_def Let_def split: option.splits)
  from assms g have lt: "r < length (req_heap p1)"
    by (auto simp: fcs_push_def req_at_def split: if_splits)
  let ?p2 = "p1\<lparr>req_heap := (req_heap p1)[r := (req_heap p1 ! r)\<lparr>req_value := v, success := True, op := PUSH\<rparr>]\<rparr>"
  from assms g lt have c: "fcs_combine_loop (fcs_requests s1) (s1, ?p2) = Inr sp'"
    by (simp add: fcs_push_def req_at_def fcs_combine_def)
  have "served (snd (s1, ?p2)) r" using lt by (simp add: served_def)
  from fcs_combine_loop_served[OF c this] t show ?thesis
    by (simp add: served_def)
qed

lemma fcs_visit_pop:
  "req_at (req_heap p) r = Some rq \<Longrightarrow> op rq = POP \<Longrightarrow>
     \<exists>s' p'. fcs_visit r (s, p) = Inr (s', p') \<and> length (req_heap p') = length (req_heap p)
        \<and> success (req_heap p' ! r) = (fcs_data s \<noteq> [])
        \<and> op (req_heap p' ! r) = NONE
        \<and> fcs_data s' = butlast (fcs_data s)
        \<and> (fcs_data s \<noteq> [] \<longrightarrow> req_value (req_heap p' ! r) = last (fcs_data s))"
  by (auto simp: fcs_visit_def req_at_def split: if_splits)

lemma fcs_visit_push:
  "req_at (req_heap p) r = Some rq \<Longrightarrow> op rq = PUSH \<Longrightarrow>
     \<exists>s' p'. fcs_visit r (s, p) = Inr (s', p') \<and> length (req_heap p') = length (req_heap p)
        \<and> success (req_heap p' ! r) = success rq
        \<and> op (req_heap p' ! r) = NONE
        \<and> fcs_data s' = fcs_data s @ [req_value rq]"
  by (auto simp: fcs_visit_def req_at_def split: if_splits)

section \<open>The flat-combining queue\<close>

lemma fcq_visit_idle:
  "r < length (req_heap p) \<Longrightarrow> op (req_heap p ! r) = QNONE \<Longrightarrow> fcq_visit r (s, p) = Inr (s, p)"
  by (simp add: fcq_visit_def req_at_def)

lemma fcq_combine_loop_idle:
  "\<forall>r\<in>set rs. r < length (req_heap p) \<and> op (req_heap p ! r) = QNONE \<Longrightarrow>
     fcq_combine_loop rs (s, p) = Inr (s, p)"
  by (induction rs) (simp_all add: fcq_visit_idle)

lemma fcq_visit_pending:
  assumes "r < length (req_heap p)" "op (req_heap p ! r) \<noteq> QNONE"
  shows "\<exists>s' h'. fcq_visit r (s, p) = Inr (s', p\<lparr>req_heap := h'\<rparr>) \<and> length h' = length (req_heap p)
           \<and> op (h' ! r) = QNONE \<and> (\<forall>r'. r' \<noteq> r \<longrightarrow> h' ! r' = req_heap p ! r')"
  using assms by (cases "op (req_heap p ! r)") (auto simp: fcq_visit_def req_at_def)

lemma fcq_combine_loop_pending:
  "r \<in> set rs \<Longrightarrow>
   \<forall>r'\<in>set rs. r' < length (req_heap p) \<and> (r' \<noteq> r \<longrightarrow> op (req_heap p ! r') = QNONE) \<Longrightarrow>
   op (req_heap p ! r) \<noteq> QNONE \<Longrightarrow>
     fcq_combine_loop rs (s, p) = fcq_visit r (s, p)"
proof (induction rs)
  case Nil
  then show ?case by simp
next
  case (Cons r' rs)
  show ?case
  proof (cases "r' = r")
    case True
    from Cons.prems True have lt: "r < length (req_heap p)" by simp
    from fcq_visit_pending[OF lt Cons.prems(3), of s] obtain s' h' where
      v: "fcq_visit r (s, p) = Inr (s', p\<lparr>req_heap := h'\<rparr>)" "length h' = length (req_heap p)"
         "op (h' ! r) = QNONE" "\<forall>r'. r' \<noteq> r \<longrightarrow> h' ! r' = req_heap p ! r'" by blast
    have "\<forall>q\<in>set rs. q < length (req_heap (p\<lparr>req_heap := h'\<rparr>))
              \<and> op (req_heap (p\<lparr>req_heap := h'\<rparr>) ! q) = QNONE"
    proof
      fix q assume q: "q \<in> set rs"
      with Cons.prems(2) have "q < length (req_heap p)" "q \<noteq> r \<longrightarrow> op (req_heap p ! q) = QNONE"
        by auto
      with v show "q < length (req_heap (p\<lparr>req_heap := h'\<rparr>))
              \<and> op (req_heap (p\<lparr>req_heap := h'\<rparr>) ! q) = QNONE"
        by (cases "q = r") auto
    qed
    from fcq_combine_loop_idle[OF this] show ?thesis
      using True v by simp
  next
    case False
    with Cons.prems have "fcq_visit r' (s, p) = Inr (s, p)"
      by (intro fcq_visit_idle) auto
    moreover have "fcq_combine_loop rs (s, p) = fcq_visit r (s, p)"
      using Cons.prems False by (intro Cons.IH) auto
    ultimately show ?thesis by simp
  qed
qed

lemma fcq_get_request_linked:
  assumes "fcq_inv me (s, p)"
  shows "\<exists>r s1 p1. fcq_get_request me (s, p) = (r, s1, p1) \<and> r \<in> set (fcq_requests s1)
           \<and> tls_req p1 me = Some r \<and> fcq_data s1 = fcq_data s
           \<and> (\<forall>q\<in>set (fcq_requests s1). q < length (req_heap p1) \<and> op (req_heap p1 ! q) = QNONE)"
proof (cases "tls_req p me")
  case None
  show ?thesis
    using assms None
    by (auto simp: fcq_get_request_def fcq_inv_def Let_def nth_append)
next
  case (Some r)
  then show ?thesis
    using assms by (auto simp: fcq_get_request_def fcq_inv_def)
qed

lemma fcq_enqueue_inv:
  assumes "fcq_inv me sp"
  shows "\<exists>sp'. fcq_enqueue me v sp = Inr sp' \<and> fcq_data (fst sp') = fcq_data (fst sp) @ [v]
           \<and> fcq_inv me sp'"
proof -
  obtain s p where sp: "sp = (s, p)" by (cases sp)
  from fcq_get_request_linked[OF assms[unfolded sp]] obtain r s1 p1 where
    g: "fcq_get_request me (s, p) = (r, s1, p1)" "r \<in> set (fcq_requests s1)"
       "tls_req p1 me = Some r" "fcq_data s1 = fcq_data s"
       "\<forall>q\<in>set (fcq_requests s1). q < length (req_heap p1) \<and> op (req_heap p1 ! q) = QNONE"
    by blast
  let ?rq = "req_heap p1 ! r"
  let ?rq2 = "?rq\<lparr>req_value := v, success := True, op := ENQ\<rparr>"
  let ?p2 = "p1\<lparr>req_heap := (req_heap p1)[r := ?rq2]\<rparr>"
  have lt: "r < length (req_heap p1)" using g(2,5) by blast
  have c: "fcq_combine_loop (fcq_requests s1) (s1, ?p2) = fcq_visit r (s1, ?p2)"
    by (rule fcq_combine_loop_pending[OF g(2)]) (use g(5) lt in \<open>auto simp: nth_list_update\<close>)
  let ?p3 = "?p2\<lparr>req_heap := (req_heap ?p2)[r := ?rq2\<lparr>op := QNONE\<rparr>]\<rparr>"
  let ?s3 = "s1\<lparr>fcq_data := fcq_data s1 @ [v]\<rparr>"
  have v: "fcq_visit r (s1, ?p2) = Inr (?s3, ?p3)"
    using lt by (simp add: fcq_visit_def req_at_def)
  have run: "fcq_enqueue me v sp = Inr (?s3, ?p3)"
    using lt by (simp add: fcq_enqueue_def sp g(1) req_at_def fcq_combine_def c v)
  have "fcq_inv me (?s3, ?p3)"
    using g lt by (auto simp: fcq_inv_def nth_list_update)
  with run g(4) show ?thesis by (auto simp: sp)
qed

lemma fcq_dequeue_inv:
  assumes "fcq_inv me sp"
  shows "\<exists>sp'. fcq_dequeue me out sp =
                  Inr (fcq_data (fst sp) \<noteq> [],
                       if fcq_data (fst sp) \<noteq> [] then hd (fcq_data (fst sp)) else out, sp')
           \<and> fcq_data (fst sp') = tl (fcq_data (fst sp)) \<and> fcq_inv me sp'"
proof -
  obtain s p where sp: "sp = (s, p)" by (cases sp)
  from fcq_get_request_linked[OF assms[unfolded sp]] obtain r s1 p1 where
    g: "fcq_get_request me (s, p) = (r, s1, p1)" "r \<in> set (fcq_requests s1)"
       "tls_req p1 me = Some r" "fcq_data s1 = fcq_data s"
       "\<forall>q\<in>set (fcq_requests s1). q < length (req_heap p1) \<and> op (req_heap p1 ! q) = QNONE"
    by blast
  let ?rq = "req_heap p1 ! r"
  let ?rq2 = "?rq\<lparr>success := False, op := DEQ\<rparr>"
  let ?p2 = "p1\<lparr>req_heap := (req_heap p1)[r := ?rq2]\<rparr>"
  have lt: "r < length (req_heap p1)" using g(2,5) by blast
  have c: "fcq_combine_loop (fcq_requests s1) (s1, ?p2) = fcq_visit r (s1, ?p2)"
    by (rule fcq_combine_loop_pending[OF g(2)]) (use g(5) lt in \<open>auto simp: nth_list_update\<close>)
  show ?thesis
  proof (cases "fcq_data s = []")
    case True
    let ?p3 = "?p2\<lparr>req_heap := (req_heap ?p2)[r := ?rq2\<lparr>success := False, op := QNONE\<rparr>]\<rparr>"
    have v: "fcq_visit r (s1, ?p2) = Inr (s1, ?p3)"
      using lt True g(4) by (simp add: fcq_visit_def req_at_def)
    have run: "fcq_dequeue me out sp = Inr (False, out, s1, ?p3)"
      using lt by (simp add: fcq_dequeue_def sp g(1) req_at_def fcq_combine_def c v)
    have "fcq_inv me (s1, ?p3)"
      using g lt by (auto simp: fcq_inv_def nth_list_update)
    with run g(4) True show ?thesis by (auto simp: sp)
  next
    case False
    let ?p3 = "?p2\<lparr>req_heap := (req_heap ?p2)
                   [r := ?rq2\<lparr>req_value := hd (fcq_data s1), success := True, op := QNONE\<rparr>]\<rparr>"
    let ?s3 = "s1\<lparr>fcq_data := tl (fcq_data s1)\<rparr>"
    have v: "fcq_visit r (s1, ?p2) = Inr (?s3, ?p3)"
      using lt False g(4) by (simp add: fcq_visit_def req_at_def)
    have run: "fcq_dequeue me out sp = Inr (True, hd (fcq_data s), ?s3, ?p3)"
      using lt g(4) by (simp add: fcq_dequeue_def sp g(1) req_at_def fcq_combine_def c v)
    have "fcq_inv me (?s3, ?p3)"
      using g lt by (auto simp: fcq_inv_def nth_list_update)
    with run g(4) False show ?thesis by (auto simp: sp)
  qed
qed

lemma fcq_dequeue_false_out:
  "fcq_dequeue me out sp = Inr (False, out', sp') \<Longrightarrow> out' = out"
  by (auto simp: fcq_dequeue_def Let_def split: prod.splits option.splits sum.splits if_splits)

lemma fcq_visit_served:
  "fcq_visit q sp = Inr sp' \<Longrightarrow> qserved (snd sp) r \<Longrightarrow>
     qserved (snd sp') r \<and> tls_req (snd sp') = tls_req (snd sp)"
  by (cases sp)
     (auto simp: fcq_visit_def qserved_def req_at_def Let_def nth_list_update
           split: option.splits QOp.splits if_splits)

lemma fcq_combine_loop_served:
  "fcq_combine_loop rs sp = Inr sp' \<Longrightarrow> qserved (snd sp) r \<Longrightarrow>
     qserved (snd sp') r \<and> tls_req (snd sp') = tls_req (snd sp)"
proof (induction rs arbitrary: sp)
  case Nil
  then show ?case by simp
next
  case (Cons q rs)
  from Cons.prems(1) obtain sp1 where v: "fcq_visit q sp = Inr sp1"
    and l: "fcq_combine_loop rs sp1 = Inr sp'"
    by (auto split: sum.splits)
  from fcq_visit_served[OF v Cons.prems(2)] Cons.IH[OF l] show ?case by simp
qed

lemma fcq_enqueue_success:
  assumes "fcq_enqueue me v sp = Inr sp'"
  shows "\<exists>r. tls_req (snd sp') me = Some r \<and> r < length (req_heap (snd sp'))
            \<and> success (req_heap (snd sp') ! r)"
proof -
  obtain r s1 p1 where g: "fcq_get_request me sp = (r, s1, p1)" by (cases "fcq_get_request me sp")
  then have t: "tls_req p1 me = Some r"
    by (cases sp) (auto simp: fcq_get_request_def Let_def split: option.splits)
  from assms g have lt: "r < length (req_heap p1)"
    by (auto simp: fcq_enqueue_def req_at_def split: if_splits)
  let ?p2 = "p1\<lparr>req_heap := (req_heap p1)[r := (req_heap p1 ! r)\<lparr>req_value := v, success := True, op := ENQ\<rparr>]\<rparr>"
  from assms g lt have c: "fcq_combine_loop (fcq_requests s1) (s1, ?p2) = Inr sp'"
    by (simp add: fcq_enqueue_def req_at_def fcq_combine_def)
  have "qserved (snd (s1, ?p2)) r" using lt by (simp add: qserved_def)
  from fcq_combine_loop_served[OF c this] t show ?thesis
    by (simp add: qserved_def)
qed

lemma fcq_visit_deq:
  "req_at (req_heap p) r = Some rq \<Longrightarrow> op rq = DEQ \<Longrightarrow>
     \<exists>s' p'. fcq_visit r (s, p) = Inr (s', p') \<and> length (req_heap p') = length (req_heap p)
        \<and> success (req_heap p' ! r) = (fcq_data s \<noteq> [])
        \<and> op (req_heap p' ! r) = QNONE
        \<and> fcq_data s' = tl (fcq_data s)
        \<and> (fcq_data s \<noteq> [] \<longrightarrow> req_value (req_heap p' ! r) = hd (fcq_data s))"
  by (auto simp: fcq_visit_def req_at_def split: if_splits)

lemma fcq_visit_enq:
  "req_at (req_heap p) r = Some rq \<Longrightarrow> op rq = ENQ \<Longrightarrow>
     \<exists>s' p'. fcq_visit r (s, p) = Inr (s', p') \<and> length (req_heap p') = length (req_heap p)
        \<and> success (req_heap p' ! r) = success rq
        \<and> op (req_heap p' ! r) = QNONE
        \<and> fcq_data s' = fcq_data s @ [req_value rq]"
  by (auto simp: fcq_visit_def req_at_def split: if_splits)

section \<open>Runs of one thread against the sequential specifications\<close>

lemma lifo_puts: "lifo (map Put vs @ cs) xs = lifo cs (rev vs @ xs)"
  by (induction vs arbitrary: xs) simp_all

lemma lifo_takes: "n \<le> length xs \<Longrightarrow> lifo (replicate n Take @ cs) xs = map Some (take n xs) @ lifo cs (drop n xs)"
proof (induction n arbitrary: xs)
  case 0
  then show ?case by simp
next
  case (Suc n)
  then show ?case by (cases xs) simp_all
qed

lemma lifo_reverse:
  "lifo (map Put vs @ replicate (length vs) Take @ [Take]) [] = map Some (rev vs) @ [None]"
  by (simp add: lifo_puts lifo_takes)

lemma fifo_puts: "fifo (map Put vs @ cs) xs = fifo cs (xs @ vs)"
  by (induction vs arbitrary: xs) simp_all

lemma fifo_takes: "n \<le> length xs \<Longrightarrow> fifo (replicate n Take @ cs) xs = map Some (take n xs) @ fifo cs (drop n xs)"
proof (induction n arbitrary: xs)
  case 0
  then show ?case by simp
next
  case (Suc n)
  then show ?case by (cases xs) simp_all
qed

lemma fifo_same_order:
  "fifo (map Put vs @ replicate (length vs) Take @ [Take]) [] = map Some vs @ [None]"
  by (simp add: fifo_puts fifo_takes)

lemma sgls_run_lifo: "sgls_run cs x s = lifo cs (rev (sgls_data s))"
proof (induction cs arbitrary: x s)
  case Nil
  show ?case by simp
next
  case (Cons c cs)
  show ?case
  proof (cases c)
    case (Put v)
    then show ?thesis by (simp add: Cons.IH sgls_push_def)
  next
    case Take
    then show ?thesis
      by (cases "sgls_data s" rule: rev_cases) (simp_all add: Cons.IH sgls_pop_def answer_def)
  qed
qed

lemma sglq_run_fifo: "sglq_run cs x s = fifo cs (sglq_data s)"
proof (induction cs arbitrary: x s)
  case Nil
  show ?case by simp
next
  case (Cons c cs)
  show ?case
  proof (cases c)
    case (Put v)
    then show ?thesis by (simp add: Cons.IH sglq_enqueue_def)
  next
    case Take
    then show ?thesis
      by (cases "sglq_data s") (simp_all add: Cons.IH sglq_dequeue_def answer_def)
  qed
qed

lemma ts_run_lifo:
  "ts_inv me st axs \<Longrightarrow> ts_run me cs x st = Inr (lifo (map fst cs) (map snd axs))"
proof (induction cs arbitrary: x st axs)
  case Nil
  show ?case by simp
next
  case (Cons c cs)
  obtain k sp where c: "c = (k, sp)" by (cases c)
  show ?case
  proof (cases k)
    case (Put v)
    from Cons.IH[OF ts_push_inv[OF Cons.prems]] show ?thesis
      by (simp add: c Put)
  next
    case Take
    show ?thesis
    proof (cases axs)
      case Nil
      from ts_pop_empty[OF Cons.prems[unfolded Nil]] obtain st' where
        "ts_pop me x sp st = Inr (False, x, st')" "ts_inv me st' []" by blast
      with Cons.IH[of st' "[]"] show ?thesis
        by (simp add: c Take Nil answer_def)
    next
      case (Cons ax axs')
      obtain a y where ax: "ax = (a, y)" by (cases ax)
      from ts_pop_nonempty[OF Cons.prems[unfolded Cons ax]] obtain st' where
        "ts_pop me x sp st = Inr (True, y, st')" "ts_inv me st' axs'" by blast
      with Cons.IH[of st' axs'] show ?thesis
        by (simp add: c Take Cons ax answer_def)
    qed
  qed
qed

lemma es_run_lifo:
  "es_inv st axs \<Longrightarrow> es_run cs x st = Inr (lifo (map fst cs) (map snd axs))"
proof (induction cs arbitrary: x st axs)
  case Nil
  show ?case by simp
next
  case (Cons c cs)
  obtain k sp where c: "c = (k, sp)" by (cases c)
  show ?case
  proof (cases k)
    case (Put v)
    from Cons.IH[OF es_push_inv[OF Cons.prems]] show ?thesis
      by (simp add: c Put)
  next
    case Take
    show ?thesis
    proof (cases axs)
      case Nil
      with Cons.prems have e: "head st = None" "arena st = replicate ELIM_ARRAY_SIZE None"
        by (simp_all add: es_inv_def)
      from es_pop_empty[OF e] obtain r where
        r: "es_pop x sp st = Inr (False, x, st\<lparr>rng := r\<rparr>)" by blast
      have "es_inv (st\<lparr>rng := r\<rparr>) []" using e by (simp add: es_inv_def)
      with Cons.IH[of "st\<lparr>rng := r\<rparr>" "[]"] r show ?thesis
        by (simp add: c Take Nil answer_def)
    next
      case (Cons ax axs')
      obtain a y where ax: "ax = (a, y)" by (cases ax)
      from es_pop_nonempty[OF Cons.prems[unfolded Cons ax]] obtain st' where
        "es_pop x sp st = Inr (True, y, st')" "es_inv st' axs'" by blast
      with Cons.IH[of st' axs'] show ?thesis
        by (simp add: c Take Cons ax answer_def)
    qed
  qed
qed

lemma msq_run_fifo:
  "msq_inv me st d axs \<Longrightarrow> \<forall>(k, sp, fuel)\<in>set cs. length sp < fuel \<Longrightarrow>
     msq_run me cs x st = Inr (fifo (map fst cs) (map snd axs))"
proof (induction cs arbitrary: x st d axs)
  case Nil
  show ?case by simp
next
  case (Cons c cs)
  obtain k sp fuel where c: "c = (k, sp, fuel)" by (cases c)
  from Cons.prems(2) c have fu: "length sp < fuel" and rest: "\<forall>(k, sp, fuel)\<in>set cs. length sp < fuel"
    by auto
  show ?case
  proof (cases k)
    case (Put v)
    from enqueue_inv[OF Cons.prems(1) fu, of v] obtain st' where
      "enqueue v sp fuel st = Inr st'" "msq_inv me st' d (axs @ [(length (heap st), v)])" by blast
    with Cons.IH[OF _ rest, of st' d "axs @ [(length (heap st), v)]"] show ?thesis
      by (simp add: c Put)
  next
    case Take
    have f0: "fuel > 0" using fu by simp
    show ?thesis
    proof (cases axs)
      case Nil
      from dequeue_empty[OF Cons.prems(1)[unfolded Nil] f0] obtain st' where
        "dequeue me x fuel st = Inr (False, x, st')" "msq_inv me st' d []" by blast
      with Cons.IH[OF _ rest, of st' d "[]"] show ?thesis
        by (simp add: c Take Nil answer_def)
    next
      case (Cons ax axs')
      obtain a y where ax: "ax = (a, y)" by (cases ax)
      from dequeue_nonempty[OF Cons.prems(1)[unfolded Cons ax] f0] obtain st' where
        "dequeue me x fuel st = Inr (True, y, st')" "msq_inv me st' a axs'" by blast
      with Cons.IH[OF _ rest, of st' a axs'] show ?thesis
        by (simp add: c Take Cons ax answer_def)
    qed
  qed
qed

lemma fcs_run_lifo:
  "fcs_inv me sp \<Longrightarrow> fcs_run me cs x sp = Inr (lifo cs (rev (fcs_data (fst sp))))"
proof (induction cs arbitrary: x sp)
  case Nil
  show ?case by simp
next
  case (Cons c cs)
  show ?case
  proof (cases c)
    case (Put v)
    from fcs_push_inv[OF Cons.prems, of v] obtain sp' where
      "fcs_push me v sp = Inr sp'" "fcs_data (fst sp') = fcs_data (fst sp) @ [v]" "fcs_inv me sp'"
      by blast
    with Cons.IH[of sp'] show ?thesis by (simp add: Put)
  next
    case Take
    from fcs_pop_inv[OF Cons.prems, of x] obtain sp' where
      p: "fcs_pop me x sp = Inr (fcs_data (fst sp) \<noteq> [],
             if fcs_data (fst sp) \<noteq> [] then last (fcs_data (fst sp)) else x, sp')"
        "fcs_data (fst sp') = butlast (fcs_data (fst sp))" "fcs_inv me sp'"
      by blast
    show ?thesis
      using p Cons.IH[OF p(3)]
      by (cases "fcs_data (fst sp)" rule: rev_cases) (simp_all add: Take answer_def)
  qed
qed

lemma fcq_run_fifo:
  "fcq_inv me sp \<Longrightarrow> fcq_run me cs x sp = Inr (fifo cs (fcq_data (fst sp)))"
proof (induction cs arbitrary: x sp)
  case Nil
  show ?case by simp
next
  case (Cons c cs)
  show ?case
  proof (cases c)
    case (Put v)
    from fcq_enqueue_inv[OF Cons.prems, of v] obtain sp' where
      "fcq_enqueue me v sp = Inr sp'" "fcq_data (fst sp') = fcq_data (fst sp) @ [v]" "fcq_inv me sp'"
      by blast
    with Cons.IH[of sp'] show ?thesis by (simp add: Put)
  next
    case Take
    from fcq_dequeue_inv[OF Cons.prems, of x] obtain sp' where
      p: "fcq_dequeue me x sp = Inr (fcq_data (fst sp) \<noteq> [],
             if fcq_data (fst sp) \<noteq> [] then hd (fcq_data (fst sp)) else x, sp')"
        "fcq_data (fst sp') = tl (fcq_data (fst sp))" "fcq_inv me sp'"
      by blast
    show ?thesis
      using p Cons.IH[OF p(3)]
      by (cases "fcq_data (fst sp)") (simp_all add: Take answer_def)
  qed
qed

lemma find_owner_None_iff: "find_owner w recs = None \<longleftrightarrow> w \<notin> owner ` set recs"
  by (induction recs) auto

lemma init_invs:
  "ts_inv me TreiberStack_init []"
  "es_inv (EliminationStack_init seed) []"
  "msq_inv me MSQueue_init 0 []"
  "fcs_inv me (FlatCombiningStack_init, fc_statics_init)"
  "fcq_inv me (FlatCombiningQueue_init, fc_statics_init)"
  by (simp_all add: ts_inv_def TreiberStack_init_def es_inv_def EliminationStack_init_def
        msq_inv_def MSQueue_init_def fcs_inv_def fcq_inv_def FlatCombiningStack_init_def
        FlatCombiningQueue_init_def fc_statics_init_def hp_available_def find_owner_None_iff
        MAX_HAZARD_POINTERS_def MAX_THREADS_def HAZARD_SLOTS_PER_THREAD_def HazardRecord_init_def
        lookup_def qvals_def)

section \<open>Sample states, and operations on empty containers\<close>

lemma find_owner_replicate:
  "find_owner w (replicate n r) = (if n = 0 \<or> owner r \<noteq> w then None else Some 0)"
  by (induction n) auto

lemma acquire_init:
  "g_hazard_records st = replicate MAX_HAZARD_POINTERS HazardRecord_init \<Longrightarrow>
     acquire_hazard_record me st =
       Inr (0, st\<lparr>g_hazard_records :=
                   (replicate MAX_HAZARD_POINTERS HazardRecord_init)[0 := \<lparr>owner = Some me, ptr = None\<rparr>]\<rparr>)"
  by (simp add: acquire_hazard_record_def find_owner_replicate HazardRecord_init_def
        MAX_HAZARD_POINTERS_def MAX_THREADS_def HAZARD_SLOTS_PER_THREAD_def)

lemma msq_one_eq:
  "msq_one =
     \<lparr>heap = [Some \<lparr>qnode_next = Some 1, qnode_value = None\<rparr>,
              Some \<lparr>qnode_next = None, qnode_value = Some 5\<rparr>],
      g_hazard_records = replicate MAX_HAZARD_POINTERS HazardRecord_init,
      retired = [], trace = [], head = Some 0, tail = Some 1\<rparr>"
  by (simp add: msq_one_def enqueue_def new_QNode_def MSQueue_init_def lookup_def
        cas_weak_next_def cas_strong_tail_def)

lemma ts_one_eq:
  "ts_one =
     \<lparr>heap = [Some \<lparr>node_value = 7, node_next = None\<rparr>],
      g_hazard_records = replicate MAX_HAZARD_POINTERS HazardRecord_init,
      retired = [], trace = [Cas_head None (Some 0) True], head = Some 0\<rparr>"
  by (simp add: ts_one_def ts_push_def new_Node_def TreiberStack_init_def ts_push_loop_done
        store_next_def lookup_def log_def)

lemma es_one_eq:
  "es_one =
     \<lparr>heap = [Some \<lparr>node_value = 7, node_next = None\<rparr>],
      g_hazard_records = replicate MAX_HAZARD_POINTERS HazardRecord_init,
      retired = [], trace = [Cas_head None (Some 0) True], head = Some 0,
      arena = replicate ELIM_ARRAY_SIZE None, rng = []\<rparr>"
  by (simp add: es_one_def es_push_def new_Node_def EliminationStack_init_def es_push_loop_done
        store_next_def lookup_def log_def)

lemma slots_null_replicate: "slots_null ss \<Longrightarrow> ss = replicate (length ss) None"
  by (induction ss) (auto split: if_splits)



lemma ts_pop_on_empty:
  "ts_empty st \<Longrightarrow> hp_available me st \<Longrightarrow>
     \<exists>st'. ts_pop me out sp st = Inr (False, out, st') \<and> ts_empty st'"
proof -
  assume e: "ts_empty st" and av: "hp_available me st"
  from acquire_ok[OF av] obtain i recs where
    acq: "acquire_hazard_record me st = Inr (i, st\<lparr>g_hazard_records := recs\<rparr>)" by blast
  have "ts_pop me out sp st = Inr (False, out, hp_clear i (hp_clear i (st\<lparr>g_hazard_records := recs\<rparr>)))"
    using e by (simp add: ts_pop_def acq ts_pop_loop_empty ts_empty_def)
  moreover have "ts_empty (hp_clear i (hp_clear i (st\<lparr>g_hazard_records := recs\<rparr>)))"
    using e by (simp add: ts_empty_def hp_clear_def log_def)
  ultimately show ?thesis by blast
qed

lemma ts_pop_abort: "\<not> hp_available me st \<Longrightarrow> ts_pop me out sp st = Inl Abort"
  by (simp add: ts_pop_def acquire_abort)

lemma dequeue_abort: "\<not> hp_available me st \<Longrightarrow> dequeue me out fuel st = Inl Abort"
  by (simp add: dequeue_def acquire_abort)

lemma es_pop_on_empty:
  "es_empty st \<Longrightarrow> length (arena st) = ELIM_ARRAY_SIZE \<Longrightarrow>
     \<exists>r. es_pop out sp st = Inr (False, out, st\<lparr>rng := r\<rparr>)"
proof -
  assume e: "es_empty st" and n: "length (arena st) = ELIM_ARRAY_SIZE"
  from e have h: "head st = None" and s: "slots_null (arena st)"
    by (auto simp: es_empty_def split: if_splits)
  from slots_null_replicate[OF s] n have "arena st = replicate ELIM_ARRAY_SIZE None" by simp
  from es_pop_empty[OF h this] show ?thesis .
qed

lemma dequeue_on_empty:
  assumes "msq_empty st = Inr True" "hp_available me st" "0 < fuel"
  shows "\<exists>st'. dequeue me out fuel st = Inr (False, out, st') \<and> msq_empty st' = Inr True"
proof -
  from assms(1) obtain h hn where inv: "head st = Some h" "lookup (heap st) h = Some hn"
    "qnode_next hn = None"
    by (auto simp: msq_empty_def split: option.splits)
  from acquire_ok[OF assms(2)] obtain i recs where
    acq: "acquire_hazard_record me st = Inr (i, st\<lparr>g_hazard_records := recs\<rparr>)" by blast
  obtain k where k: "fuel = Suc k" using assms(3) by (cases fuel) auto
  let ?st' = "hp_clear i (log (Read_next h) (hp_set i (Some h) (st\<lparr>g_hazard_records := recs\<rparr>)))"
  have "dequeue me out fuel st = Inr (False, out, ?st')"
    using inv by (simp add: dequeue_def acq k dequeue_loop_step Let_def del: dequeue_loop.simps)
  moreover have "msq_empty ?st' = Inr True"
    using inv by (simp add: msq_empty_def hp_clear_def hp_set_def log_def)
  ultimately show ?thesis by blast
qed

lemma ts_pop_false_out: "ts_pop me out sp st = Inr (False, out', st') \<Longrightarrow> out' = out"
  by (auto simp: ts_pop_def Let_def split: sum.splits prod.splits option.splits)

lemma es_pop_false_out: "es_pop out sp st = Inr (False, out', st') \<Longrightarrow> out' = out"
  using es_pop_loop_props[of sp 0 out st False out' st'] by (simp add: es_pop_def)

lemma dequeue_false_out: "dequeue me out fuel st = Inr (False, out', st') \<Longrightarrow> out' = out"
  using dequeue_loop_props
  by (fastforce simp: dequeue_def split: sum.splits prod.splits)

lemma sgls_pop_false_out: "sgls_pop out s = (False, out', s') \<Longrightarrow> out' = out"
  by (auto simp: sgls_pop_def split: if_splits)

lemma sglq_dequeue_false_out: "sglq_dequeue out s = (False, out', s') \<Longrightarrow> out' = out"
  by (auto simp: sglq_dequeue_def split: if_splits)

lemma es_pop_no_smr: "es_pop out sp st = Inr (ok, out', st') \<Longrightarrow> no_smr st st'"
  using es_pop_loop_props[of sp 0 out st ok out' st'] by (simp add: es_pop_def)

lemma es_pop_central:
  "head st = Some a \<Longrightarrow> lookup (heap st) a = Some nd \<Longrightarrow> sp = [] \<or> \<not> hd sp \<Longrightarrow>
     es_pop out sp st =
       Inr (True, node_value nd,
            st\<lparr>heap := (heap st)[a := None],
               trace := trace st @ [Read_next a, Cas_head (Some a) (node_next nd) True,
                                    Read_value a, Delete a],
               head := node_next nd\<rparr>)"
  by (simp add: es_pop_def es_pop_loop_done delete_node_def log_def)

lemma ts_one_inv: "ts_inv 0 ts_one [(0, 7)]"
  by (simp add: ts_one_eq ts_inv_def lookup_def hp_available_def find_owner_replicate
        MAX_HAZARD_POINTERS_def MAX_THREADS_def HAZARD_SLOTS_PER_THREAD_def HazardRecord_init_def)

lemma es_one_inv: "es_inv es_one [(0, 7)]"
  by (simp add: es_one_eq es_inv_def lookup_def)

lemma msq_one_inv: "msq_inv 0 msq_one 0 [(1, 5)]"
  by (simp add: msq_one_eq msq_inv_def qvals_def lookup_def hp_available_def find_owner_replicate
        MAX_HAZARD_POINTERS_def MAX_THREADS_def HAZARD_SLOTS_PER_THREAD_def HazardRecord_init_def)

lemma sgls_pop_on_empty: "sgls_empty s \<Longrightarrow> sgls_pop out s = (False, out, s)"
  by (simp add: sgls_empty_def sgls_pop_def)

lemma sglq_dequeue_on_empty: "sglq_empty s \<Longrightarrow> sglq_dequeue out s = (False, out, s)"
  by (simp add: sglq_empty_def sglq_dequeue_def)

lemma fcs_pop_linked:
  "fcs_inv me sp \<Longrightarrow>
     \<exists>sp'. fcs_pop me out sp =
              Inr (\<not> fcs_empty sp, if fcs_empty sp then out else last (fcs_data (fst sp)), sp')
          \<and> fcs_data (fst sp') = butlast (fcs_data (fst sp))"
  using fcs_pop_inv[of me sp out] by (auto simp: fcs_empty_def)

lemma fcq_dequeue_linked:
  "fcq_inv me sp \<Longrightarrow>
     \<exists>sp'. fcq_dequeue me out sp =
              Inr (\<not> fcq_empty sp, if fcq_empty sp then out else hd (fcq_data (fst sp)), sp')
          \<and> fcq_data (fst sp') = tl (fcq_data (fst sp))"
  using fcq_dequeue_inv[of me sp out] by (auto simp: fcq_empty_def)

lemma fcs_push_linked:
  "fcs_inv me sp \<Longrightarrow>
     \<exists>sp'. fcs_push me v sp = Inr sp' \<and> fcs_data (fst sp') = fcs_data (fst sp) @ [v]"
  using fcs_push_inv[of me sp v] by blast

lemma fcq_enqueue_linked:
  "fcq_inv me sp \<Longrightarrow>
     \<exists>sp'. fcq_enqueue me v sp = Inr sp' \<and> fcq_data (fst sp') = fcq_data (fst sp) @ [v]"
  using fcq_enqueue_inv[of me sp v] by blast

lemma fcs_visit_pop_success:
  "req_at (req_heap p) r = Some rq \<Longrightarrow> op rq = POP \<Longrightarrow>
     \<exists>s' p'. fcs_visit r (fs, p) = Inr (s', p') \<and> success (req_heap p' ! r) = (fcs_data fs \<noteq> [])"
  using fcs_visit_pop[of p r rq fs] by blast

lemma fcq_visit_deq_success:
  "req_at (req_heap p) r = Some rq \<Longrightarrow> op rq = DEQ \<Longrightarrow>
     \<exists>s' p'. fcq_visit r (fs, p) = Inr (s', p') \<and> success (req_heap p' ! r) = (fcq_data fs \<noteq> [])"
  using fcq_visit_deq[of p r rq fs] by blast

lemma final_eq: "r = Inr (ok, out, st) \<Longrightarrow> r = Inr (ok, out, final r d)"
  by (simp add: final_def)

lemma hp_available_init:
  "g_hazard_records st = replicate MAX_HAZARD_POINTERS HazardRecord_init \<Longrightarrow> hp_available me st"
  by (simp add: hp_available_def find_owner_replicate MAX_HAZARD_POINTERS_def MAX_THREADS_def
        HAZARD_SLOTS_PER_THREAD_def HazardRecord_init_def)

lemma hp_exhausted:
  "g_hazard_records st = map (\<lambda>t. \<lparr>owner = Some t, ptr = None\<rparr>) [1..<129] \<Longrightarrow>
     \<not> hp_available 0 st"
  by (auto simp: hp_available_def find_owner_None_iff)

lemma empty_pops:
  "ts_pop 0 9 [] (TreiberStack_init :: int TreiberStack)
     = Inr (False, 9, final (ts_pop 0 9 [] TreiberStack_init) TreiberStack_init)"
  "es_pop 9 [] (EliminationStack_init [] :: int EliminationStack)
     = Inr (False, 9, final (es_pop 9 [] (EliminationStack_init [])) (EliminationStack_init []))"
  "dequeue 0 9 1 (MSQueue_init :: int MSQueue)
     = Inr (False, 9, final (dequeue 0 9 1 MSQueue_init) MSQueue_init)"
  "fcs_pop 0 9 (FlatCombiningStack_init, fc_statics_init :: (Op, int) fc_statics)
     = Inr (False, 9, final (fcs_pop 0 9 (FlatCombiningStack_init, fc_statics_init))
                       (FlatCombiningStack_init, fc_statics_init))"
  "fcq_dequeue 0 9 (FlatCombiningQueue_init, fc_statics_init :: (QOp, int) fc_statics)
     = Inr (False, 9, final (fcq_dequeue 0 9 (FlatCombiningQueue_init, fc_statics_init))
                       (FlatCombiningQueue_init, fc_statics_init))"
proof -
  have ti: "ts_inv 0 (TreiberStack_init :: int TreiberStack) []" by (rule init_invs)
  have mi: "msq_inv 0 (MSQueue_init :: int MSQueue) 0 []" by (rule init_invs)
  have fi: "fcs_inv 0 (FlatCombiningStack_init, fc_statics_init :: (Op, int) fc_statics)"
    by (rule init_invs)
  have qi: "fcq_inv 0 (FlatCombiningQueue_init, fc_statics_init :: (QOp, int) fc_statics)"
    by (rule init_invs)
  obtain st' where "ts_pop 0 9 [] (TreiberStack_init :: int TreiberStack) = Inr (False, 9, st')"
    using ts_pop_empty[OF ti, of 9 "[]"] by blast
  then show "ts_pop 0 9 [] (TreiberStack_init :: int TreiberStack)
     = Inr (False, 9, final (ts_pop 0 9 [] TreiberStack_init) TreiberStack_init)"
    by (rule final_eq)
  have "head (EliminationStack_init [] :: int EliminationStack) = None"
    "arena (EliminationStack_init [] :: int EliminationStack) = replicate ELIM_ARRAY_SIZE None"
    by (simp_all add: EliminationStack_init_def)
  from es_pop_empty[OF this] obtain r where
    "es_pop 9 [] (EliminationStack_init [] :: int EliminationStack)
       = Inr (False, 9, (EliminationStack_init [])\<lparr>rng := r\<rparr>)" by blast
  then show "es_pop 9 [] (EliminationStack_init [] :: int EliminationStack)
     = Inr (False, 9, final (es_pop 9 [] (EliminationStack_init [])) (EliminationStack_init []))"
    by (rule final_eq)
  obtain st' where "dequeue 0 9 1 (MSQueue_init :: int MSQueue) = Inr (False, 9, st')"
    using dequeue_empty[OF mi, of 1 9] by auto
  then show "dequeue 0 9 1 (MSQueue_init :: int MSQueue)
     = Inr (False, 9, final (dequeue 0 9 1 MSQueue_init) MSQueue_init)"
    by (rule final_eq)
  obtain sp' where "fcs_pop 0 9 (FlatCombiningStack_init, fc_statics_init :: (Op, int) fc_statics)
     = Inr (False, 9, sp')"
    using fcs_pop_inv[OF fi, of 9] by (auto simp: FlatCombiningStack_init_def)
  then show "fcs_pop 0 9 (FlatCombiningStack_init, fc_statics_init :: (Op, int) fc_statics)
     = Inr (False, 9, final (fcs_pop 0 9 (FlatCombiningStack_init, fc_statics_init))
                       (FlatCombiningStack_init, fc_statics_init))"
    by (rule final_eq)
  obtain sp' where "fcq_dequeue 0 9 (FlatCombiningQueue_init, fc_statics_init :: (QOp, int) fc_statics)
     = Inr (False, 9, sp')"
    using fcq_dequeue_inv[OF qi, of 9] by (auto simp: FlatCombiningQueue_init_def)
  then show "fcq_dequeue 0 9 (FlatCombiningQueue_init, fc_statics_init :: (QOp, int) fc_statics)
     = Inr (False, 9, final (fcq_dequeue 0 9 (FlatCombiningQueue_init, fc_statics_init))
                       (FlatCombiningQueue_init, fc_statics_init))"
    by (rule final_eq)
qed

section \<open>A node parked in the arena\<close>






section \<open>The order of the value read and the head CAS in \<open>MSQueue::dequeue\<close>\<close>




section \<open>One request record per thread and class in the flat-combining containers\<close>

text \<open>
  C2. \<open>tls_req_\<close> is a \<open>static thread_local\<close> member: a thread has one request record for
  all containers of the class, and \<open>get_request\<close> links it into the publication list of the
  container on which the thread calls first, and into no other. Thread 0 pushes 1 on a first
  stack, which leaves its record set (\<open>thread0_used\<close>). On a second, fresh stack the
  publication list stays empty: push(1), push(2), push(3) leave the stack empty, the three
  pops that follow return false, where a stack returns 3, 2, 1; and the push returns with its
  request still pending in the record. The queue does the same: the three dequeues return
  false where a queue returns 1, 2, 3.
\<close>

theorem fc_second_instance_loses_operations:
  "fcs_push 0 1 (FlatCombiningStack_init, fc_statics_init)
     = Inr (\<lparr>fcs_data = [1], fcs_requests = [0]\<rparr>, thread0_used)
   \<and> fcs_run 0 [Put 1, Put 2, Put 3, Take, Take, Take] 9 (FlatCombiningStack_init, thread0_used)
       = Inr [None, None, None]
   \<and> lifo [Put 1, Put 2, Put 3, Take, Take, Take] [] = [Some 3, Some 2, Some (1::int)]
   \<and> fcs_push 0 2 (FlatCombiningStack_init, thread0_used)
       = Inr (\<lparr>fcs_data = [], fcs_requests = []\<rparr>,
              thread0_used\<lparr>req_heap := [\<lparr>op = PUSH, req_value = 2, success = True\<rparr>]\<rparr>)
   \<and> fcq_enqueue 0 1 (FlatCombiningQueue_init, fc_statics_init)
     = Inr (\<lparr>fcq_data = [1], fcq_requests = [0]\<rparr>, thread0_qused)
   \<and> fcq_run 0 [Put 1, Put 2, Put 3, Take, Take, Take] 9 (FlatCombiningQueue_init, thread0_qused)
       = Inr [None, None, None]
   \<and> fifo [Put 1, Put 2, Put 3, Take, Take, Take] [] = [Some 1, Some 2, Some (3::int)]"
  by (simp add: fcs_push_def fcs_pop_def fcs_get_request_def fcs_combine_def fcs_visit_def
        fcq_enqueue_def fcq_dequeue_def fcq_get_request_def fcq_combine_def fcq_visit_def
        FlatCombiningStack_init_def FlatCombiningQueue_init_def fc_statics_init_def
        thread0_used_def thread0_qused_def req_at_def answer_def)

section \<open>The central path of \<open>EliminationStack::pop\<close>\<close>

text \<open>
  C3. The code departs from the protocol the specification gives. On a stack that holds the
  single value 7, \<open>EliminationStack::pop\<close> reads the \<open>next\<close> field of the head node with
  no hazard pointer published, and after its CAS deletes the node at once without retiring
  it: its log breaks the protocol, and the cell of the node is free when it returns, while a
  second thread that loaded the same \<open>head\<close> is about to read through it.
  \<open>TreiberStack::pop\<close> on the same contents publishes the node before it reads through it
  and retires it: its log follows the protocol, and the node is still allocated, on the
  retired list, when it returns.
\<close>

theorem es_pop_violates_hazard_protocol:
  "outcome (es_pop 9 [] es_one)
     = Inr (True, 7, [Cas_head None (Some 0) True, Read_next 0, Cas_head (Some 0) None True,
                      Read_value 0, Delete 0])
   \<and> \<not> hp_protocol None [] [Cas_head None (Some 0) True, Read_next 0, Cas_head (Some 0) None True,
                      Read_value 0, Delete 0]
   \<and> outcome (ts_pop 0 9 [] ts_one)
     = Inr (True, 7, [Cas_head None (Some 0) True, Hp_set (Some 0), Read_next 0,
                      Cas_head (Some 0) None True, Read_value 0, Hp_clear, Retire 0, Hp_clear])
   \<and> hp_protocol None [] [Cas_head None (Some 0) True, Hp_set (Some 0), Read_next 0,
                      Cas_head (Some 0) None True, Read_value 0, Hp_clear, Retire 0, Hp_clear]
   \<and> lookup (heap (final (es_pop 9 [] es_one) es_one)) 0 = None
   \<and> retired (final (es_pop 9 [] es_one) es_one) = []
   \<and> lookup (heap (final (ts_pop 0 9 [] ts_one) ts_one)) 0
       = Some \<lparr>node_value = 7, node_next = None\<rparr>
   \<and> retired (final (ts_pop 0 9 [] ts_one) ts_one) = [0]"
proof -
  have e: "head es_one = Some 0" "lookup (heap es_one) 0 = Some \<lparr>node_value = 7, node_next = None\<rparr>"
    by (simp_all add: es_one_eq lookup_def)
  have 1: "outcome (es_pop 9 [] es_one)
     = Inr (True, 7, [Cas_head None (Some 0) True, Read_next 0, Cas_head (Some 0) None True,
                      Read_value 0, Delete 0])"
    by (simp add: outcome_def es_pop_def es_pop_loop_done[OF e] delete_node_def log_def)
       (simp add: es_one_eq)
  let ?st0 = "ts_one\<lparr>g_hazard_records :=
                   (replicate MAX_HAZARD_POINTERS HazardRecord_init)[0 := \<lparr>owner = Some 0, ptr = None\<rparr>]\<rparr>"
  have t: "head ?st0 = Some 0" "lookup (heap ?st0) 0 = Some \<lparr>node_value = 7, node_next = None\<rparr>"
    by (simp_all add: ts_one_eq lookup_def)
  have a: "acquire_hazard_record 0 ts_one = Inr (0, ?st0)"
    by (rule acquire_init) (simp add: ts_one_eq)
  have 2: "outcome (ts_pop 0 9 [] ts_one)
     = Inr (True, 7, [Cas_head None (Some 0) True, Hp_set (Some 0), Read_next 0,
                      Cas_head (Some 0) None True, Read_value 0, Hp_clear, Retire 0, Hp_clear])"
    apply (simp add: outcome_def ts_pop_def a ts_pop_loop_done[OF t])
    apply (simp add: ts_one_eq lookup_def retire_eq retire_dels_def threshold_def hp_clear_def
        hp_set_def log_def)
    done
  have 3: "lookup (heap (final (es_pop 9 [] es_one) es_one)) 0 = None"
    "retired (final (es_pop 9 [] es_one) es_one) = []"
    by (simp_all add: final_def es_pop_def es_pop_loop_done[OF e] delete_node_def log_def)
       (simp_all add: es_one_eq lookup_def)
  have 4: "lookup (heap (final (ts_pop 0 9 [] ts_one) ts_one)) 0
       = Some \<lparr>node_value = 7, node_next = None\<rparr>"
    "retired (final (ts_pop 0 9 [] ts_one) ts_one) = [0]"
    by (simp_all add: final_def ts_pop_def a ts_pop_loop_done[OF t])
       (simp_all add: ts_one_eq lookup_def retire_eq retire_dels_def retire_kept_def threshold_def
          hp_clear_def hp_set_def log_def)
  show ?thesis using 1 2 3 4 by simp
qed

section \<open>One thread on one container\<close>

text \<open>
  Run by one thread on a new container in a new process, each of the four stacks (coarse,
  Treiber, elimination, flat-combining) answers every sequence of pushes and pops as the
  sequential stack does, whatever the spurious failures of the weak compare-and-swaps and
  the random slots of the arena. The same holds from any state that satisfies the
  container's invariant, the contents of that state taking the place of the empty stack;
  for the flat-combining stack the invariant asks that the thread's request record is unset
  or linked in this container, and that every linked record is idle.
\<close>

lemma stacks_single_thread_lifo:
  "sgls_run cs (x::'a::zero) SGLStack_init = lifo cs []
   \<and> ts_run me tcs x TreiberStack_init = Inr (lifo (map fst tcs) [])
   \<and> es_run tcs x (EliminationStack_init seed) = Inr (lifo (map fst tcs) [])
   \<and> fcs_run me cs x (FlatCombiningStack_init, fc_statics_init) = Inr (lifo cs [])
   \<and> lifo (map Put vs @ replicate (length vs) Take @ [Take]) [] = map Some (rev vs) @ [None]
   \<and> lifo [Put 1, Put 2, Put 3, Take, Take, Take, Take] [] = [Some 3, Some 2, Some (1::int), None]
   \<and> sgls_run cs x s = lifo cs (rev (sgls_data s))
   \<and> (ts_inv me st axs \<longrightarrow> ts_run me tcs x st = Inr (lifo (map fst tcs) (map snd axs)))
   \<and> (es_inv est axs \<longrightarrow> es_run tcs x est = Inr (lifo (map fst tcs) (map snd axs)))
   \<and> (fcs_inv me fsp \<longrightarrow> fcs_run me cs x fsp = Inr (lifo cs (rev (fcs_data (fst fsp)))))"
proof -
  have 1: "sgls_run cs x SGLStack_init = lifo cs []"
    by (simp add: sgls_run_lifo SGLStack_init_def)
  have 2: "ts_run me tcs x TreiberStack_init = Inr (lifo (map fst tcs) [])"
    using ts_run_lifo[OF init_invs(1)] by simp
  have 3: "es_run tcs x (EliminationStack_init seed) = Inr (lifo (map fst tcs) [])"
    using es_run_lifo[OF init_invs(2)] by simp
  have 4: "fcs_run me cs x (FlatCombiningStack_init, fc_statics_init) = Inr (lifo cs [])"
    using fcs_run_lifo[OF init_invs(4), of me cs x] by (simp add: FlatCombiningStack_init_def)
  have 5: "lifo (map Put vs @ replicate (length vs) Take @ [Take]) [] = map Some (rev vs) @ [None]"
    by (rule lifo_reverse)
  have 6: "lifo [Put 1, Put 2, Put 3, Take, Take, Take, Take] [] = [Some 3, Some 2, Some (1::int), None]"
    by simp
  have 7: "sgls_run cs x s = lifo cs (rev (sgls_data s))"
    by (rule sgls_run_lifo)
  have 8: "ts_inv me st axs \<longrightarrow> ts_run me tcs x st = Inr (lifo (map fst tcs) (map snd axs))"
    by (rule impI) (rule ts_run_lifo)
  have 9: "es_inv est axs \<longrightarrow> es_run tcs x est = Inr (lifo (map fst tcs) (map snd axs))"
    by (rule impI) (rule es_run_lifo)
  have 10: "fcs_inv me fsp \<longrightarrow> fcs_run me cs x fsp = Inr (lifo cs (rev (fcs_data (fst fsp))))"
    by (rule impI) (rule fcs_run_lifo)
  show ?thesis
    by (intro conjI) (rule 1, rule 2, rule 3, rule 4, rule 5, rule 6, rule 7, rule 8, rule 9, rule 10)
qed

lemma stacks_single_thread_lifo_example:
  "ts_inv 0 ts_one [(0, 7)] \<and> ts_run 0 [(Take, [True, False]), (Take, [])] 9 ts_one = Inr [Some 7, None]
   \<and> es_inv es_one [(0, 7)]
   \<and> es_run [(Put 8, [True, True, True, True, True]), (Take, [True]), (Take, []), (Take, [])] 9 es_one
       = Inr [Some 8, Some 7, None]
   \<and> fcs_inv 0 (FlatCombiningStack_init, fc_statics_init :: (Op, int) fc_statics)
   \<and> fcs_run 0 [Put 1, Put 2, Put 3, Take, Take, Take, Take] (9::int)
        (FlatCombiningStack_init, fc_statics_init) = Inr [Some 3, Some 2, Some 1, None]
   \<and> ts_run 0 [(Put 1, []), (Put 2, [True]), (Put 3, []), (Take, []), (Take, [True, True]),
                (Take, []), (Take, [])] (9::int) TreiberStack_init
       = Inr [Some 3, Some 2, Some 1, None]"
  using stacks_single_thread_lifo
          [of "[Put 1, Put 2, Put 3, Take, Take, Take, Take]" "9::int" 0
              "[(Put 1, []), (Put 2, [True]), (Put 3, []), (Take, []), (Take, [True, True]),
                (Take, []), (Take, [])]" "[]" "[]" SGLStack_init ts_one "[(0, 7)]" es_one
              "(FlatCombiningStack_init, fc_statics_init)"]
        stacks_single_thread_lifo
          [of "[]" "9::int" 0 "[(Take, [True, False]), (Take, [])]" "[]" "[]" SGLStack_init
              ts_one "[(0, 7)]" es_one "(FlatCombiningStack_init, fc_statics_init)"]
        stacks_single_thread_lifo
          [of "[]" "9::int" 0
              "[(Put 8, [True, True, True, True, True]), (Take, [True]), (Take, []), (Take, [])]"
              "[]" "[]" SGLStack_init ts_one "[(0, 7)]" es_one
              "(FlatCombiningStack_init, fc_statics_init)"]
        ts_one_inv es_one_inv init_invs(4)[of 0]
  by simp

text \<open>
  The same for the three queues (coarse, Michael-Scott, flat-combining) and the sequential
  queue; each call on the Michael-Scott queue is given more loop iterations than its weak
  compare-and-swaps fail spuriously.
\<close>

lemma queues_single_thread_fifo:
  "sglq_run cs (x::'a::zero) SGLQueue_init = fifo cs []
   \<and> ((\<forall>(k, sp, fuel)\<in>set qcs. length sp < fuel) \<longrightarrow>
        msq_run me qcs x MSQueue_init = Inr (fifo (map fst qcs) []))
   \<and> fcq_run me cs x (FlatCombiningQueue_init, fc_statics_init) = Inr (fifo cs [])
   \<and> fifo (map Put vs @ replicate (length vs) Take @ [Take]) [] = map Some vs @ [None]
   \<and> fifo [Put 10, Put 20, Put 30, Take, Take, Take, Take] []
       = [Some 10, Some 20, Some (30::int), None]
   \<and> sglq_run cs x s = fifo cs (sglq_data s)
   \<and> (msq_inv me st d axs \<and> (\<forall>(k, sp, fuel)\<in>set qcs. length sp < fuel) \<longrightarrow>
        msq_run me qcs x st = Inr (fifo (map fst qcs) (map snd axs)))
   \<and> (fcq_inv me fsp \<longrightarrow> fcq_run me cs x fsp = Inr (fifo cs (fcq_data (fst fsp))))"
proof -
  have 1: "sglq_run cs x SGLQueue_init = fifo cs []"
    by (simp add: sglq_run_fifo SGLQueue_init_def)
  have 2: "(\<forall>(k, sp, fuel)\<in>set qcs. length sp < fuel) \<longrightarrow>
        msq_run me qcs x MSQueue_init = Inr (fifo (map fst qcs) [])"
    using msq_run_fifo[OF init_invs(3), of qcs me x] by simp
  have 3: "fcq_run me cs x (FlatCombiningQueue_init, fc_statics_init) = Inr (fifo cs [])"
    using fcq_run_fifo[OF init_invs(5), of me cs x] by (simp add: FlatCombiningQueue_init_def)
  have 4: "msq_inv me st d axs \<and> (\<forall>(k, sp, fuel)\<in>set qcs. length sp < fuel) \<longrightarrow>
        msq_run me qcs x st = Inr (fifo (map fst qcs) (map snd axs))"
    by (rule impI, erule conjE) (rule msq_run_fifo)
  have 5: "fifo (map Put vs @ replicate (length vs) Take @ [Take]) [] = map Some vs @ [None]"
    by (rule fifo_same_order)
  have 6: "fifo [Put 10, Put 20, Put 30, Take, Take, Take, Take] []
       = [Some 10, Some 20, Some (30::int), None]"
    by simp
  have 7: "sglq_run cs x s = fifo cs (sglq_data s)"
    by (rule sglq_run_fifo)
  have 8: "fcq_inv me fsp \<longrightarrow> fcq_run me cs x fsp = Inr (fifo cs (fcq_data (fst fsp)))"
    by (rule impI) (rule fcq_run_fifo)
  show ?thesis
    by (intro conjI) (rule 1, rule 2, rule 3, rule 5, rule 6, rule 7, rule 4, rule 8)
qed

lemma queues_single_thread_fifo_example:
  "length [True, True] < (3::nat)
   \<and> msq_run 0 [(Put 10, [True, True], 3), (Put 20, [], 1), (Put 30, [True], 2),
                (Take, [], 1), (Take, [], 1), (Take, [], 1), (Take, [], Suc 0)] (9::int) MSQueue_init
       = Inr [Some 10, Some 20, Some 30, None]
   \<and> msq_inv 0 msq_one 0 [(1, 5)]
   \<and> msq_run 0 [(Take, [], 1), (Take, [], 1)] 9 msq_one = Inr [Some 5, None]
   \<and> fcq_inv 0 (FlatCombiningQueue_init, fc_statics_init :: (QOp, int) fc_statics)
   \<and> fcq_run 0 [Put 10, Put 20, Put 30, Take, Take, Take, Take] (9::int)
        (FlatCombiningQueue_init, fc_statics_init) = Inr [Some 10, Some 20, Some 30, None]"
  using queues_single_thread_fifo
          [of "[Put 10, Put 20, Put 30, Take, Take, Take, Take]" "9::int"
              "[(Put 10, [True, True], 3), (Put 20, [], 1), (Put 30, [True], 2),
                (Take, [], 1), (Take, [], 1), (Take, [], 1), (Take, [], Suc 0)]" 0 "[]"
              SGLQueue_init msq_one 0 "[(1, 5)]" "(FlatCombiningQueue_init, fc_statics_init)"]
        queues_single_thread_fifo
          [of "[]" "9::int" "[(Take, [], 1), (Take, [], 1)]" 0 "[]"
              SGLQueue_init msq_one 0 "[(1, 5)]" "(FlatCombiningQueue_init, fc_statics_init)"]
        msq_one_inv init_invs(5)[of 0]
  by simp

text \<open>
  On an empty container the pop or dequeue of the coarse containers and of the elimination
  stack returns false; that of the Treiber stack and of the Michael-Scott queue returns
  false when the calling thread owns a hazard record or one is free, and aborts the process
  when neither is the case (the exhaustion of the hazard records), whatever the contents.
  In the flat-combining containers, when every linked record is idle and the thread's own
  record is unset or linked in this container, the thread gets false exactly when the
  container is empty; the combiner's visit of a pending pop or dequeue record sets
  \<open>success\<close> to whether the underlying sequence is non-empty at that moment.
\<close>

lemma pop_on_empty_returns_false:
  "(sgls_empty s \<longrightarrow> sgls_pop out s = (False, out, s))
   \<and> (sglq_empty q \<longrightarrow> sglq_dequeue out q = (False, out, q))
   \<and> (ts_empty st \<and> hp_available me st \<longrightarrow>
        (\<exists>st'. ts_pop me out sp st = Inr (False, out, st') \<and> ts_empty st'))
   \<and> (\<not> hp_available me st \<longrightarrow> ts_pop me out sp st = Inl Abort)
   \<and> (es_empty est \<and> length (arena est) = ELIM_ARRAY_SIZE \<longrightarrow>
        (\<exists>r. es_pop out sp est = Inr (False, out, est\<lparr>rng := r\<rparr>)))
   \<and> (msq_empty mst = Inr True \<and> hp_available me mst \<and> 0 < fuel \<longrightarrow>
        (\<exists>st'. dequeue me out fuel mst = Inr (False, out, st') \<and> msq_empty st' = Inr True))
   \<and> (\<not> hp_available me mst \<longrightarrow> dequeue me out fuel mst = Inl Abort)
   \<and> (fcs_inv me fsp \<longrightarrow>
        (\<exists>sp'. fcs_pop me out fsp =
                 Inr (\<not> fcs_empty fsp, if fcs_empty fsp then out else last (fcs_data (fst fsp)), sp')
             \<and> fcs_data (fst sp') = butlast (fcs_data (fst fsp))))
   \<and> (fcq_inv me qsp \<longrightarrow>
        (\<exists>sp'. fcq_dequeue me out qsp =
                 Inr (\<not> fcq_empty qsp, if fcq_empty qsp then out else hd (fcq_data (fst qsp)), sp')
             \<and> fcq_data (fst sp') = tl (fcq_data (fst qsp))))
   \<and> (req_at (req_heap p) r = Some rq \<and> op rq = POP \<longrightarrow>
        (\<exists>s' p'. fcs_visit r (fs, p) = Inr (s', p')
            \<and> success (req_heap p' ! r) = (fcs_data fs \<noteq> [])))
   \<and> (req_at (req_heap qp) r = Some qrq \<and> op qrq = DEQ \<longrightarrow>
        (\<exists>s' p'. fcq_visit r (qs, qp) = Inr (s', p')
            \<and> success (req_heap p' ! r) = (fcq_data qs \<noteq> [])))
   \<and> (fcs_inv me fsp \<longrightarrow>
        (\<exists>sp'. fcs_push me v fsp = Inr sp' \<and> fcs_data (fst sp') = fcs_data (fst fsp) @ [v]))
   \<and> (fcq_inv me qsp \<longrightarrow>
        (\<exists>sp'. fcq_enqueue me v qsp = Inr sp' \<and> fcq_data (fst sp') = fcq_data (fst qsp) @ [v]))
   \<and> (fcs_push me v fsp = Inr fsp' \<longrightarrow>
        (\<exists>r. tls_req (snd fsp') me = Some r \<and> r < length (req_heap (snd fsp'))
            \<and> success (req_heap (snd fsp') ! r)))
   \<and> (fcq_enqueue me v qsp = Inr qsp' \<longrightarrow>
        (\<exists>r. tls_req (snd qsp') me = Some r \<and> r < length (req_heap (snd qsp'))
            \<and> success (req_heap (snd qsp') ! r)))"
  by (intro conjI impI; (elim conjE)?;
      (rule sgls_pop_on_empty sglq_dequeue_on_empty ts_pop_on_empty ts_pop_abort es_pop_on_empty
            dequeue_on_empty dequeue_abort fcs_pop_linked fcq_dequeue_linked
            fcs_visit_pop_success fcq_visit_deq_success fcs_push_linked fcq_enqueue_linked
            fcs_push_success fcq_enqueue_success; assumption))

lemma pop_on_empty_returns_false_example:
  "sgls_empty (SGLStack_init :: int SGLStack)
   \<and> sgls_pop 9 (SGLStack_init :: int SGLStack) = (False, 9, SGLStack_init)
   \<and> sglq_empty (SGLQueue_init :: int SGLQueue)
   \<and> ts_empty (TreiberStack_init :: int TreiberStack)
   \<and> hp_available 0 (TreiberStack_init :: int TreiberStack)
   \<and> (\<exists>st'. ts_pop 0 9 [] (TreiberStack_init :: int TreiberStack) = Inr (False, 9, st'))
   \<and> \<not> hp_available 0 ts_exhausted \<and> ts_pop 0 9 [] ts_exhausted = Inl Abort
   \<and> es_empty (EliminationStack_init [] :: int EliminationStack)
   \<and> length (arena (EliminationStack_init [] :: int EliminationStack)) = ELIM_ARRAY_SIZE
   \<and> (\<exists>r. es_pop 9 [] (EliminationStack_init [] :: int EliminationStack)
            = Inr (False, 9, (EliminationStack_init [])\<lparr>rng := r\<rparr>))
   \<and> msq_empty (MSQueue_init :: int MSQueue) = Inr True
   \<and> hp_available 0 (MSQueue_init :: int MSQueue) \<and> (0::nat) < 1
   \<and> (\<exists>st'. dequeue 0 9 1 (MSQueue_init :: int MSQueue) = Inr (False, 9, st'))
   \<and> \<not> hp_available 0 msq_exhausted \<and> dequeue 0 9 1 msq_exhausted = Inl Abort
   \<and> fcs_inv 0 (FlatCombiningStack_init, fc_statics_init :: (Op, int) fc_statics)
   \<and> (\<exists>sp'. fcs_pop 0 9 (FlatCombiningStack_init, fc_statics_init :: (Op, int) fc_statics)
             = Inr (False, 9, sp'))
   \<and> fcq_inv 0 (FlatCombiningQueue_init, fc_statics_init :: (QOp, int) fc_statics)
   \<and> (\<exists>sp'. fcq_dequeue 0 9 (FlatCombiningQueue_init, fc_statics_init :: (QOp, int) fc_statics)
             = Inr (False, 9, sp'))
   \<and> req_at (req_heap fcs_pending_pop) 0 = Some \<lparr>op = POP, req_value = 0, success = False\<rparr>
   \<and> (\<exists>s' p'. fcs_visit 0 (\<lparr>fcs_data = [4], fcs_requests = [0]\<rparr>, fcs_pending_pop) = Inr (s', p')
             \<and> success (req_heap p' ! 0))
   \<and> req_at (req_heap fcq_pending_deq) 0 = Some \<lparr>op = DEQ, req_value = 0, success = False\<rparr>
   \<and> (\<exists>s' p'. fcq_visit 0 (\<lparr>fcq_data = [], fcq_requests = [0]\<rparr>, fcq_pending_deq) = Inr (s', p')
             \<and> \<not> success (req_heap p' ! 0))
   \<and> fcs_push 0 1 (FlatCombiningStack_init, fc_statics_init)
        = Inr (\<lparr>fcs_data = [1], fcs_requests = [0]\<rparr>, thread0_used)
   \<and> success (req_heap thread0_used ! 0)
   \<and> fcq_enqueue 0 1 (FlatCombiningQueue_init, fc_statics_init)
        = Inr (\<lparr>fcq_data = [1], fcq_requests = [0]\<rparr>, thread0_qused)
   \<and> success (req_heap thread0_qused ! 0)"
proof -
  note t1 = pop_on_empty_returns_false
          [where s = "SGLStack_init :: int SGLStack" and out = 9
             and q = "SGLQueue_init :: int SGLQueue"
             and st = "TreiberStack_init :: int TreiberStack" and me = 0 and sp = "[]"
             and est = "EliminationStack_init [] :: int EliminationStack"
             and mst = "MSQueue_init :: int MSQueue" and fuel = 1
             and fsp = "(FlatCombiningStack_init, fc_statics_init :: (Op, int) fc_statics)"
             and qsp = "(FlatCombiningQueue_init, fc_statics_init :: (QOp, int) fc_statics)"
             and p = fcs_pending_pop and r = 0
             and rq = "\<lparr>op = POP, req_value = 0, success = False\<rparr>"
             and fs = "\<lparr>fcs_data = [4], fcs_requests = [0]\<rparr>"
             and qp = fcq_pending_deq
             and qrq = "\<lparr>op = DEQ, req_value = 0, success = False\<rparr>"
             and qs = "\<lparr>fcq_data = [], fcq_requests = [0]\<rparr>"
             and v = 1
             and fsp' = "(\<lparr>fcs_data = [1], fcs_requests = [0]\<rparr>, thread0_used)"
             and qsp' = "(\<lparr>fcq_data = [1], fcq_requests = [0]\<rparr>, thread0_qused)"]
  note t2 = pop_on_empty_returns_false
          [where s = "SGLStack_init :: int SGLStack" and out = 9
             and q = "SGLQueue_init :: int SGLQueue"
             and st = ts_exhausted and me = 0 and sp = "[]"
             and est = "EliminationStack_init [] :: int EliminationStack"
             and mst = msq_exhausted and fuel = 1
             and fsp = "(FlatCombiningStack_init, fc_statics_init :: (Op, int) fc_statics)"
             and qsp = "(FlatCombiningQueue_init, fc_statics_init :: (QOp, int) fc_statics)"
             and p = fcs_pending_pop and r = 0
             and rq = "\<lparr>op = POP, req_value = 0, success = False\<rparr>"
             and fs = "\<lparr>fcs_data = [4], fcs_requests = [0]\<rparr>"
             and qp = fcq_pending_deq
             and qrq = "\<lparr>op = DEQ, req_value = 0, success = False\<rparr>"
             and qs = "\<lparr>fcq_data = [], fcq_requests = [0]\<rparr>"
             and v = 1
             and fsp' = "(\<lparr>fcs_data = [1], fcs_requests = [0]\<rparr>, thread0_used)"
             and qsp' = "(\<lparr>fcq_data = [1], fcq_requests = [0]\<rparr>, thread0_qused)"]
  have a: "hp_available 0 (TreiberStack_init :: int TreiberStack)"
    "hp_available 0 (MSQueue_init :: int MSQueue)"
    by (rule hp_available_init, simp add: TreiberStack_init_def MSQueue_init_def)+
  have x: "\<not> hp_available 0 ts_exhausted" "\<not> hp_available 0 msq_exhausted"
    by (rule hp_exhausted, simp add: ts_exhausted_def msq_exhausted_def)+
  have e: "sgls_empty (SGLStack_init :: int SGLStack)" "sglq_empty (SGLQueue_init :: int SGLQueue)"
    "ts_empty (TreiberStack_init :: int TreiberStack)"
    "es_empty (EliminationStack_init [] :: int EliminationStack)"
    "length (arena (EliminationStack_init [] :: int EliminationStack)) = ELIM_ARRAY_SIZE"
    "msq_empty (MSQueue_init :: int MSQueue) = Inr True"
    "fcs_empty (FlatCombiningStack_init, fc_statics_init :: (Op, int) fc_statics)"
    "fcq_empty (FlatCombiningQueue_init, fc_statics_init :: (QOp, int) fc_statics)"
    by (simp_all add: sgls_empty_def sglq_empty_def ts_empty_def es_empty_def msq_empty_def
          SGLStack_init_def SGLQueue_init_def TreiberStack_init_def EliminationStack_init_def
          MSQueue_init_def fcs_empty_def fcq_empty_def FlatCombiningStack_init_def
          FlatCombiningQueue_init_def lookup_def ELIM_ARRAY_SIZE_def slots_null_iff)
  have r: "req_at (req_heap fcs_pending_pop) 0 = Some \<lparr>op = POP, req_value = 0, success = False\<rparr>"
    "req_at (req_heap fcq_pending_deq) 0 = Some \<lparr>op = DEQ, req_value = 0, success = False\<rparr>"
    by (simp_all add: req_at_def fcs_pending_pop_def fcq_pending_deq_def)
  have p: "fcs_push 0 1 (FlatCombiningStack_init, fc_statics_init)
        = Inr (\<lparr>fcs_data = [1], fcs_requests = [0]\<rparr>, thread0_used)"
    "fcq_enqueue 0 1 (FlatCombiningQueue_init, fc_statics_init)
        = Inr (\<lparr>fcq_data = [1], fcq_requests = [0]\<rparr>, thread0_qused)"
    by (simp_all add: fcs_push_def fcs_get_request_def fcs_combine_def fcs_visit_def
        fcq_enqueue_def fcq_get_request_def fcq_combine_def fcq_visit_def
        FlatCombiningStack_init_def FlatCombiningQueue_init_def fc_statics_init_def
        thread0_used_def thread0_qused_def req_at_def)
  have s: "success (req_heap thread0_used ! 0)" "success (req_heap thread0_qused ! 0)"
    by (simp_all add: thread0_used_def thread0_qused_def)
  have i: "fcs_inv 0 (FlatCombiningStack_init, fc_statics_init :: (Op, int) fc_statics)"
    "fcq_inv 0 (FlatCombiningQueue_init, fc_statics_init :: (QOp, int) fc_statics)"
    by (rule init_invs)+
  show ?thesis
    using t1 t2 a x e r p s i
    apply simp
    apply blast
    done
qed

text \<open>
  The state of a thread that has used another instance is outside these invariants.
\<close>

lemma second_instance_not_inv:
  "\<not> fcs_inv 0 (FlatCombiningStack_init, thread0_used)"
  "\<not> fcq_inv 0 (FlatCombiningQueue_init, thread0_qused)"
  by (simp_all add: fcs_inv_def fcq_inv_def FlatCombiningStack_init_def FlatCombiningQueue_init_def
        thread0_used_def thread0_qused_def)

section \<open>Single-thread order of the flat-combining stack\<close>

text \<open>
  C5. The code departs from the last-in first-out order in the flat-combining stack, through
  the request record that all instances share. Thread 0 pushes 1 on a first stack, which
  leaves its record set (\<open>thread0_used\<close>) and linked in that stack only. Run by the same
  thread, alone, on a second, new stack, push(1); push(2); push(3) followed by four pops
  returns nothing four times, where a stack returns 3, 2, 1 and then nothing. The coarse, the Treiber and the
  elimination stack return 3, 2, 1 and nothing.
\<close>

theorem fcs_second_instance_not_lifo:
  "fcs_push 0 1 (FlatCombiningStack_init, fc_statics_init)
     = Inr (\<lparr>fcs_data = [1], fcs_requests = [0]\<rparr>, thread0_used)
   \<and> fcs_run 0 [Put 1, Put 2, Put 3, Take, Take, Take, Take] 9
         (FlatCombiningStack_init, thread0_used) = Inr [None, None, None, None]
   \<and> lifo [Put 1, Put 2, Put 3, Take, Take, Take, Take] []
       = [Some 3, Some 2, Some (1::int), None]
   \<and> fcs_run 0 [Put 1, Put 2, Put 3, Take, Take, Take, Take] (9::int)
         (FlatCombiningStack_init, fc_statics_init) = Inr [Some 3, Some 2, Some 1, None]
   \<and> sgls_run [Put 1, Put 2, Put 3, Take, Take, Take, Take] (9::int) SGLStack_init
       = [Some 3, Some 2, Some 1, None]
   \<and> ts_run 0 [(Put 1, []), (Put 2, []), (Put 3, []), (Take, []), (Take, []), (Take, []),
                (Take, [])] (9::int) TreiberStack_init = Inr [Some 3, Some 2, Some 1, None]
   \<and> es_run [(Put 1, []), (Put 2, []), (Put 3, []), (Take, []), (Take, []), (Take, []),
              (Take, [])] (9::int) (EliminationStack_init []) = Inr [Some 3, Some 2, Some 1, None]"
proof -
  have 1: "fcs_push 0 1 (FlatCombiningStack_init, fc_statics_init)
     = Inr (\<lparr>fcs_data = [1], fcs_requests = [0]\<rparr>, thread0_used)"
    by (simp add: fcs_push_def fcs_get_request_def fcs_combine_def fcs_visit_def
        FlatCombiningStack_init_def fc_statics_init_def thread0_used_def req_at_def)
  have 2: "fcs_run 0 [Put 1, Put 2, Put 3, Take, Take, Take, Take] 9
         (FlatCombiningStack_init, thread0_used) = Inr [None, None, None, None]"
    by (simp add: fcs_push_def fcs_pop_def fcs_get_request_def fcs_combine_def fcs_visit_def
        FlatCombiningStack_init_def thread0_used_def req_at_def answer_def)
  have 4: "fcs_run 0 [Put 1, Put 2, Put 3, Take, Take, Take, Take] (9::int)
         (FlatCombiningStack_init, fc_statics_init) = Inr [Some 3, Some 2, Some 1, None]"
    using fcs_run_lifo[OF init_invs(4), of 0 "[Put 1, Put 2, Put 3, Take, Take, Take, Take]" "9::int"]
    by (simp add: FlatCombiningStack_init_def)
  have 5: "sgls_run [Put 1, Put 2, Put 3, Take, Take, Take, Take] (9::int) SGLStack_init
       = [Some 3, Some 2, Some 1, None]"
    by (simp add: sgls_run_lifo SGLStack_init_def)
  have 6: "ts_run 0 [(Put 1, []), (Put 2, []), (Put 3, []), (Take, []), (Take, []), (Take, []),
                (Take, [])] (9::int) TreiberStack_init = Inr [Some 3, Some 2, Some 1, None]"
    using ts_run_lifo[OF init_invs(1), of 0 "[(Put 1, []), (Put 2, []), (Put 3, []), (Take, []),
                (Take, []), (Take, []), (Take, [])]" "9::int"] by simp
  have 7: "es_run [(Put 1, []), (Put 2, []), (Put 3, []), (Take, []), (Take, []), (Take, []),
              (Take, [])] (9::int) (EliminationStack_init []) = Inr [Some 3, Some 2, Some 1, None]"
    using es_run_lifo[OF init_invs(2)[of "[]"], where x = "9::int"
            and cs = "[(Put 1, []), (Put 2, []), (Put 3, []), (Take, []), (Take, []), (Take, []),
                (Take, [])]"] by simp
  show ?thesis using 1 2 4 5 6 7 by simp
qed

section \<open>Single-thread order of the flat-combining queue\<close>

text \<open>
  C6. The code departs from the first-in first-out order in the flat-combining queue in the
  same way. Thread 0 enqueues 1 on a first queue, which leaves its record set
  (\<open>thread0_qused\<close>) and linked in that queue only. Run by the same thread, alone, on a
  second, new queue, enq(10); enq(20); enq(30) followed by four dequeues returns nothing four
  times, where a queue returns 10, 20, 30 and then nothing. The coarse and the Michael-Scott
  queue return 10, 20, 30 and nothing.
\<close>

theorem fcq_second_instance_not_fifo:
  "fcq_enqueue 0 1 (FlatCombiningQueue_init, fc_statics_init)
     = Inr (\<lparr>fcq_data = [1], fcq_requests = [0]\<rparr>, thread0_qused)
   \<and> fcq_run 0 [Put 10, Put 20, Put 30, Take, Take, Take, Take] 9
         (FlatCombiningQueue_init, thread0_qused) = Inr [None, None, None, None]
   \<and> fifo [Put 10, Put 20, Put 30, Take, Take, Take, Take] []
       = [Some 10, Some 20, Some (30::int), None]
   \<and> fcq_run 0 [Put 10, Put 20, Put 30, Take, Take, Take, Take] (9::int)
         (FlatCombiningQueue_init, fc_statics_init) = Inr [Some 10, Some 20, Some 30, None]
   \<and> sglq_run [Put 10, Put 20, Put 30, Take, Take, Take, Take] (9::int) SGLQueue_init
       = [Some 10, Some 20, Some 30, None]
   \<and> msq_run 0 [(Put 10, [], 1), (Put 20, [], 1), (Put 30, [], 1), (Take, [], 1), (Take, [], 1),
                 (Take, [], 1), (Take, [], 1)] (9::int) MSQueue_init
       = Inr [Some 10, Some 20, Some 30, None]"
proof -
  have 1: "fcq_enqueue 0 1 (FlatCombiningQueue_init, fc_statics_init)
     = Inr (\<lparr>fcq_data = [1], fcq_requests = [0]\<rparr>, thread0_qused)"
    by (simp add: fcq_enqueue_def fcq_get_request_def fcq_combine_def fcq_visit_def
        FlatCombiningQueue_init_def fc_statics_init_def thread0_qused_def req_at_def)
  have 2: "fcq_run 0 [Put 10, Put 20, Put 30, Take, Take, Take, Take] 9
         (FlatCombiningQueue_init, thread0_qused) = Inr [None, None, None, None]"
    by (simp add: fcq_enqueue_def fcq_dequeue_def fcq_get_request_def fcq_combine_def fcq_visit_def
        FlatCombiningQueue_init_def thread0_qused_def req_at_def answer_def)
  have 4: "fcq_run 0 [Put 10, Put 20, Put 30, Take, Take, Take, Take] (9::int)
         (FlatCombiningQueue_init, fc_statics_init) = Inr [Some 10, Some 20, Some 30, None]"
    using fcq_run_fifo[OF init_invs(5), of 0 "[Put 10, Put 20, Put 30, Take, Take, Take, Take]" "9::int"]
    by (simp add: FlatCombiningQueue_init_def)
  have 5: "sglq_run [Put 10, Put 20, Put 30, Take, Take, Take, Take] (9::int) SGLQueue_init
       = [Some 10, Some 20, Some 30, None]"
    by (simp add: sglq_run_fifo SGLQueue_init_def)
  have 6: "msq_run 0 [(Put 10, [], 1), (Put 20, [], 1), (Put 30, [], 1), (Take, [], 1), (Take, [], 1),
                 (Take, [], 1), (Take, [], 1)] (9::int) MSQueue_init
       = Inr [Some 10, Some 20, Some 30, None]"
    using msq_run_fifo[OF init_invs(3), of "[(Put 10, [], 1), (Put 20, [], 1), (Put 30, [], 1),
                 (Take, [], 1), (Take, [], 1), (Take, [], 1), (Take, [], 1)]" 0 "9::int"] by simp
  show ?thesis using 1 2 4 5 6 by simp
qed

section \<open>Pop on an empty flat-combining container\<close>

text \<open>
  C8. The code departs from the specification in the flat-combining containers: a pop on an
  empty stack can return true. Thread 0 does push(1) and pop on a stack \<open>a\<close>, which leaves
  \<open>a\<close> empty and the record of thread 0 linked in \<open>a\<close>, and then push(5) on a second
  stack \<open>b\<close>: the push has no effect on \<open>b\<close> and returns with the request still pending
  in the record. Thread 1 then pops on \<open>a\<close>, which is empty: its combiner finds the pending
  push of thread 0 in the list of \<open>a\<close>, pushes 5 on \<open>a\<close>, and serves its own pop with it,
  so the pop returns true and 5. The queue does the same.
\<close>

theorem fc_pop_on_empty_returns_value:
  "fcs_push 0 1 (FlatCombiningStack_init, fc_statics_init)
     = Inr (\<lparr>fcs_data = [1], fcs_requests = [0]\<rparr>, thread0_used)
   \<and> fcs_pop 0 9 (\<lparr>fcs_data = [1], fcs_requests = [0]\<rparr>, thread0_used)
     = Inr (True, 1, \<lparr>fcs_data = [], fcs_requests = [0]\<rparr>, thread0_used)
   \<and> fcs_push 0 5 (FlatCombiningStack_init, thread0_used)
     = Inr (FlatCombiningStack_init, thread0_pending)
   \<and> fcs_empty (FlatCombiningStack_init, thread0_pending)
   \<and> fcs_empty (\<lparr>fcs_data = [], fcs_requests = [0]\<rparr>, thread0_pending)
   \<and> fcs_pop 1 9 (\<lparr>fcs_data = [], fcs_requests = [0]\<rparr>, thread0_pending)
     = Inr (True, 5, \<lparr>fcs_data = [], fcs_requests = [0, 1]\<rparr>,
            \<lparr>tls_req = (\<lambda>t. None)(0 := Some 0, 1 := Some 1),
             req_heap = [\<lparr>op = NONE, req_value = 5, success = True\<rparr>,
                         \<lparr>op = NONE, req_value = 5, success = True\<rparr>]\<rparr>)
   \<and> fcq_enqueue 0 1 (FlatCombiningQueue_init, fc_statics_init)
     = Inr (\<lparr>fcq_data = [1], fcq_requests = [0]\<rparr>, thread0_qused)
   \<and> fcq_dequeue 0 9 (\<lparr>fcq_data = [1], fcq_requests = [0]\<rparr>, thread0_qused)
     = Inr (True, 1, \<lparr>fcq_data = [], fcq_requests = [0]\<rparr>, thread0_qused)
   \<and> fcq_enqueue 0 5 (FlatCombiningQueue_init, thread0_qused)
     = Inr (FlatCombiningQueue_init, thread0_qpending)
   \<and> fcq_empty (\<lparr>fcq_data = [], fcq_requests = [0]\<rparr>, thread0_qpending)
   \<and> fcq_dequeue 1 9 (\<lparr>fcq_data = [], fcq_requests = [0]\<rparr>, thread0_qpending)
     = Inr (True, 5, \<lparr>fcq_data = [], fcq_requests = [0, 1]\<rparr>,
            \<lparr>tls_req = (\<lambda>t. None)(0 := Some 0, 1 := Some 1),
             req_heap = [\<lparr>op = QNONE, req_value = 5, success = True\<rparr>,
                         \<lparr>op = QNONE, req_value = 5, success = True\<rparr>]\<rparr>)"
  by (simp add: fcs_push_def fcs_pop_def fcs_get_request_def fcs_combine_def fcs_visit_def
        fcq_enqueue_def fcq_dequeue_def fcq_get_request_def fcq_combine_def fcq_visit_def
        FlatCombiningStack_init_def FlatCombiningQueue_init_def fc_statics_init_def
        thread0_used_def thread0_qused_def thread0_pending_def thread0_qpending_def
        req_at_def fcs_empty_def fcq_empty_def)

section \<open>The emptiness test of the elimination stack and a parked node\<close>



section \<open>The out-parameter of a failed pop or dequeue\<close>

text \<open>
  C10. In every container, a pop or dequeue that returns false leaves the caller's
  out-parameter as it was.
\<close>

theorem failed_pop_leaves_out_unchanged:
  "(sgls_pop out s = (False, out', s') \<longrightarrow> out' = out)
   \<and> (sglq_dequeue out q = (False, out', q') \<longrightarrow> out' = out)
   \<and> (ts_pop me out sp st = Inr (False, out', st') \<longrightarrow> out' = out)
   \<and> (es_pop out sp est = Inr (False, out', est') \<longrightarrow> out' = out)
   \<and> (dequeue me out fuel mst = Inr (False, out', mst') \<longrightarrow> out' = out)
   \<and> (fcs_pop me out fsp = Inr (False, out', fsp') \<longrightarrow> out' = out)
   \<and> (fcq_dequeue me out qsp = Inr (False, out', qsp') \<longrightarrow> out' = out)"
  by (intro conjI impI;
      (rule sgls_pop_false_out sglq_dequeue_false_out ts_pop_false_out es_pop_false_out
            dequeue_false_out fcs_pop_false_out fcq_dequeue_false_out; assumption))

theorem failed_pop_leaves_out_unchanged_witness:
  "sgls_pop 9 (SGLStack_init :: int SGLStack) = (False, 9, SGLStack_init)
   \<and> sglq_dequeue 9 (SGLQueue_init :: int SGLQueue) = (False, 9, SGLQueue_init)
   \<and> ts_pop 0 9 [] (TreiberStack_init :: int TreiberStack)
        = Inr (False, 9, final (ts_pop 0 9 [] TreiberStack_init) TreiberStack_init)
   \<and> es_pop 9 [] (EliminationStack_init [] :: int EliminationStack)
        = Inr (False, 9, final (es_pop 9 [] (EliminationStack_init [])) (EliminationStack_init []))
   \<and> dequeue 0 9 1 (MSQueue_init :: int MSQueue)
        = Inr (False, 9, final (dequeue 0 9 1 MSQueue_init) MSQueue_init)
   \<and> fcs_pop 0 9 (FlatCombiningStack_init, fc_statics_init :: (Op, int) fc_statics)
        = Inr (False, 9, final (fcs_pop 0 9 (FlatCombiningStack_init, fc_statics_init))
                          (FlatCombiningStack_init, fc_statics_init))
   \<and> fcq_dequeue 0 9 (FlatCombiningQueue_init, fc_statics_init :: (QOp, int) fc_statics)
        = Inr (False, 9, final (fcq_dequeue 0 9 (FlatCombiningQueue_init, fc_statics_init))
                          (FlatCombiningQueue_init, fc_statics_init))"
  using failed_pop_leaves_out_unchanged
          [where out = "9::int" and out' = 9 and s = SGLStack_init and s' = SGLStack_init
             and q = SGLQueue_init and q' = SGLQueue_init and me = 0 and sp = "[]"
             and st = TreiberStack_init
             and st' = "final (ts_pop 0 9 [] TreiberStack_init) TreiberStack_init"
             and est = "EliminationStack_init []"
             and est' = "final (es_pop 9 [] (EliminationStack_init [])) (EliminationStack_init [])"
             and fuel = 1 and mst = MSQueue_init
             and mst' = "final (dequeue 0 9 1 MSQueue_init) MSQueue_init"
             and fsp = "(FlatCombiningStack_init, fc_statics_init)"
             and fsp' = "final (fcs_pop 0 9 (FlatCombiningStack_init, fc_statics_init))
                          (FlatCombiningStack_init, fc_statics_init)"
             and qsp = "(FlatCombiningQueue_init, fc_statics_init)"
             and qsp' = "final (fcq_dequeue 0 9 (FlatCombiningQueue_init, fc_statics_init))
                          (FlatCombiningQueue_init, fc_statics_init)"]
        empty_pops
  by (simp add: sgls_pop_def sglq_dequeue_def SGLStack_init_def SGLQueue_init_def)

end
